theory Spec2Isabelle
  imports Main "HOL-Library.Word" "HOL-Library.Sublist" "HOL-Library.Monad_Syntax"
begin

section \<open>Decoded values\<close>

text \<open>
  The values of \<^verbatim>\<open>interface{}\<close> that \<^verbatim>\<open>pkg/kubecfg/diff.go\<close> inspects, one
  constructor per arm of the type switch of \<^verbatim>\<open>isEmptyValue\<close>. A Go map is the list of
  its entries in the order in which a \<^verbatim>\<open>range\<close> loop visits them; Go leaves that order
  open, and the theorems below hold for every order. The keys of a Go map are distinct
  (\<open>distinct_keys\<close> below). A \<^verbatim>\<open>float64\<close> is its IEEE-754 bit pattern, an
  \<^verbatim>\<open>int64\<close> its 64 bits. A nil slice or map and an empty one are not told apart (both
  have length 0, and the JSON decoder produces no typed nil). \<open>JOther t v\<close> is a value of
  any other dynamic type, with the texts that \<^verbatim>\<open>%T\<close> and \<^verbatim>\<open>%v\<close> print for it.
\<close>

type_synonym int64 = "64 word"
type_synonym float64 = "64 word"

datatype jvalue =
    JList "jvalue list"
  | JStrList "string list"
  | JMap "(string \<times> jvalue) list"
  | JBool bool
  | JFloat float64
  | JInt int64
  | JString string
  | JNil
  | JOther string string

datatype panic = Panic string

text \<open>Go's \<^verbatim>\<open>v == 0\<close> on a \<^verbatim>\<open>float64\<close>: true of \<open>+0\<close> and of \<open>-0\<close>, false of
  every other bit pattern (NaN included).\<close>

definition float64_eq_zero :: "float64 \<Rightarrow> bool" where
  "float64_eq_zero v = (v = 0 \<or> v = 0x8000000000000000)"

section \<open>The emptiness predicate\<close>

fun isEmptyValue :: "jvalue \<Rightarrow> panic + bool" where
  "isEmptyValue (JList v) = Inr (length v = 0)"
| "isEmptyValue (JStrList v) = Inr (length v = 0)"
| "isEmptyValue (JMap v) = Inr (length v = 0)"
| "isEmptyValue (JBool v) = Inr (\<not> v)"
| "isEmptyValue (JFloat v) = Inr (float64_eq_zero v)"
| "isEmptyValue (JInt v) = Inr (v = 0)"
| "isEmptyValue (JString v) = Inr (v = [])"
| "isEmptyValue JNil = Inr True"
| "isEmptyValue (JOther t v) =
     Inl (Panic (''Found unexpected type '' @ t @ '' in json unmarshal (value='' @ v @ '')''))"

section \<open>The subset reducer\<close>

text \<open>
  \<^verbatim>\<open>removeMapFields\<close> ranges over the entries of \<open>config\<close>; \<^verbatim>\<open>live[k]\<close> is
  \<open>map_of live k\<close>. \<^verbatim>\<open>removeListFields\<close> ranges over \<open>live\<close> with the index \<open>i\<close>;
  the recursion below walks both lists together, so that the head of \<open>config\<close> is
  \<^verbatim>\<open>config[i]\<close> as long as \<^verbatim>\<open>len(config) > i\<close>. A panic of \<^verbatim>\<open>isEmptyValue\<close> ends
  the whole call.
\<close>

fun removeFields :: "jvalue \<Rightarrow> jvalue \<Rightarrow> panic + jvalue"
and removeMapFields ::
  "(string \<times> jvalue) list \<Rightarrow> (string \<times> jvalue) list \<Rightarrow> panic + (string \<times> jvalue) list"
and removeListFields :: "jvalue list \<Rightarrow> jvalue list \<Rightarrow> panic + jvalue list" where
  "removeFields (JMap c) live =
     (case live of
        JMap l \<Rightarrow> (case removeMapFields c l of Inl p \<Rightarrow> Inl p | Inr r \<Rightarrow> Inr (JMap r))
      | _ \<Rightarrow> Inr live)"
| "removeFields (JList c) live =
     (case live of
        JList l \<Rightarrow> (case removeListFields c l of Inl p \<Rightarrow> Inl p | Inr r \<Rightarrow> Inr (JList r))
      | _ \<Rightarrow> Inr live)"
| "removeFields (JStrList c) live = Inr live"
| "removeFields (JBool c) live = Inr live"
| "removeFields (JFloat c) live = Inr live"
| "removeFields (JInt c) live = Inr live"
| "removeFields (JString c) live = Inr live"
| "removeFields JNil live = Inr live"
| "removeFields (JOther t c) live = Inr live"
| "removeMapFields [] live = Inr []"
| "removeMapFields ((k, v1) # config) live =
     (case map_of live k of
        None \<Rightarrow>
          (case isEmptyValue v1 of
             Inl p \<Rightarrow> Inl p
           | Inr e \<Rightarrow>
               (case removeMapFields config live of
                  Inl p \<Rightarrow> Inl p
                | Inr result \<Rightarrow> Inr (if e then (k, v1) # result else result)))
      | Some v2 \<Rightarrow>
          (case removeFields v1 v2 of
             Inl p \<Rightarrow> Inl p
           | Inr r \<Rightarrow>
               (case removeMapFields config live of
                  Inl p \<Rightarrow> Inl p
                | Inr result \<Rightarrow> Inr ((k, r) # result))))"
| "removeListFields config [] = Inr []"
| "removeListFields [] (v2 # live) =
     (case removeListFields [] live of Inl p \<Rightarrow> Inl p | Inr result \<Rightarrow> Inr (v2 # result))"
| "removeListFields (c # config) (v2 # live) =
     (case removeFields c v2 of
        Inl p \<Rightarrow> Inl p
      | Inr r \<Rightarrow>
          (case removeListFields config live of
             Inl p \<Rightarrow> Inl p
           | Inr result \<Rightarrow> Inr (r # result)))"

text \<open>
  The documents of the specification: the values the JSON decoder produces. \<open>decoded v\<close>
  says that no value of another dynamic type occurs anywhere in \<open>v\<close>; \<open>distinct_keys v\<close>
  says that every map inside \<open>v\<close> has distinct keys, as every Go map has.
\<close>

fun decoded :: "jvalue \<Rightarrow> bool"
and decoded_entries :: "(string \<times> jvalue) list \<Rightarrow> bool"
and decoded_list :: "jvalue list \<Rightarrow> bool" where
  "decoded (JList v) = decoded_list v"
| "decoded (JMap v) = decoded_entries v"
| "decoded (JOther t v) = False"
| "decoded (JStrList v) = True"
| "decoded (JBool v) = True"
| "decoded (JFloat v) = True"
| "decoded (JInt v) = True"
| "decoded (JString v) = True"
| "decoded JNil = True"
| "decoded_entries [] = True"
| "decoded_entries ((k, v) # m) = (decoded v \<and> decoded_entries m)"
| "decoded_list [] = True"
| "decoded_list (v # vs) = (decoded v \<and> decoded_list vs)"

fun distinct_keys :: "jvalue \<Rightarrow> bool"
and distinct_keys_entries :: "(string \<times> jvalue) list \<Rightarrow> bool"
and distinct_keys_list :: "jvalue list \<Rightarrow> bool" where
  "distinct_keys (JList v) = distinct_keys_list v"
| "distinct_keys (JMap v) = (distinct (map fst v) \<and> distinct_keys_entries v)"
| "distinct_keys (JOther t v) = True"
| "distinct_keys (JStrList v) = True"
| "distinct_keys (JBool v) = True"
| "distinct_keys (JFloat v) = True"
| "distinct_keys (JInt v) = True"
| "distinct_keys (JString v) = True"
| "distinct_keys JNil = True"
| "distinct_keys_entries [] = True"
| "distinct_keys_entries ((k, v) # m) = (distinct_keys v \<and> distinct_keys_entries m)"
| "distinct_keys_list [] = True"
| "distinct_keys_list (v # vs) = (distinct_keys v \<and> distinct_keys_list vs)"

text \<open>
  The zero value of each kind, in the words of the specification: empty list, empty
  mapping, boolean false, numeric zero, empty string, null. \<open>in_closed_set\<close> is the closed
  set of kinds that the type switch of \<^verbatim>\<open>isEmptyValue\<close> knows.
\<close>

fun zero_value :: "jvalue \<Rightarrow> bool" where
  "zero_value (JList v) = (v = [])"
| "zero_value (JStrList v) = (v = [])"
| "zero_value (JMap v) = (v = [])"
| "zero_value (JBool v) = (v = False)"
| "zero_value (JFloat v) = float64_eq_zero v"
| "zero_value (JInt v) = (v = 0)"
| "zero_value (JString v) = (v = '''')"
| "zero_value JNil = True"
| "zero_value (JOther t v) = False"

fun in_closed_set :: "jvalue \<Rightarrow> bool" where
  "in_closed_set (JOther t v) = False"
| "in_closed_set v = True"

section \<open>The diff formatter\<close>

text \<open>
  Strings are byte lists. Both regular expressions of the file only name ASCII characters,
  and \<^verbatim>\<open>.\<close> only excludes the newline, so that matching byte by byte gives the same
  replacement as Go's matching rune by rune.

  \<^verbatim>\<open>DiffLineStart = (^|\n)(.)\<close>, replaced by \<^verbatim>\<open>$1<marker>$2\<close>: the scan tries a match at
  the current position; \<open>at_begin\<close> holds at offset 0 only, where \<^verbatim>\<open>^\<close> matches. After a
  match the scan goes on behind it, after a failure behind the current character.
\<close>

abbreviation LF :: char where "LF \<equiv> CHR 0x0A"
abbreviation DQ :: char where "DQ \<equiv> CHR 0x22"
abbreviation ESC :: char where "ESC \<equiv> CHR 0x1B"
abbreviation BS :: char where "BS \<equiv> CHR 0x5C"

text \<open>A segment of package \<^verbatim>\<open>diffmatchpatch\<close>: its kind, one of the three the switch of
  \<^verbatim>\<open>formatDiff\<close> names, and its text.\<close>

datatype Operation = DiffDelete | DiffInsert | DiffEqual

datatype Diff = Diff (Type: Operation) (Text: string)

fun DiffLineStart_scan :: "string \<Rightarrow> bool \<Rightarrow> string \<Rightarrow> string" where
  "DiffLineStart_scan repl at_begin [] = []"
| "DiffLineStart_scan repl at_begin (c # cs) =
     (if at_begin \<and> c \<noteq> LF then repl @ c # DiffLineStart_scan repl False cs
      else if c = LF then
        (case cs of
           [] \<Rightarrow> [LF]
         | d # ds \<Rightarrow>
             if d \<noteq> LF then LF # repl @ d # DiffLineStart_scan repl False ds
             else LF # DiffLineStart_scan repl False cs)
      else c # DiffLineStart_scan repl False cs)"

definition DiffLineStart_ReplaceAllString :: "string \<Rightarrow> string \<Rightarrow> string" where
  "DiffLineStart_ReplaceAllString text repl = DiffLineStart_scan repl True text"

text \<open>
  \<^verbatim>\<open>DiffKeyValue = "([-._a-zA-Z0-9]+)":\s"([[:alnum:]=+]+)",?\<close>. No character class
  contains the character that follows it in the pattern, so the greedy repetitions never
  backtrack and a match at a position is found by one pass: \<open>regex_char\<close> consumes one
  character of a class, \<open>regex_plus\<close> a longest non-empty run, \<open>regex_opt\<close> one optional
  character. \<open>DiffKeyValue_match s\<close> is the first submatch and the text behind the match when
  the pattern matches at the beginning of \<open>s\<close>. \<^verbatim>\<open>ReplaceAllString\<close> replaces the leftmost
  matches, one after the other, by \<^verbatim>\<open>$1: <omitted>\<close>.
\<close>

definition is_alnum :: "char \<Rightarrow> bool" where
  "is_alnum c = (c \<in> set ''abcdefghijklmnopqrstuvwxyzABCDEFGHIJKLMNOPQRSTUVWXYZ0123456789'')"

definition is_key_char :: "char \<Rightarrow> bool" where
  "is_key_char c = (c \<in> set ''-._'' \<or> is_alnum c)"

definition is_value_char :: "char \<Rightarrow> bool" where
  "is_value_char c = (is_alnum c \<or> c \<in> set ''=+'')"

definition is_space :: "char \<Rightarrow> bool" where
  "is_space c = (c \<in> {CHR 0x09, CHR 0x0A, CHR 0x0C, CHR 0x0D, CHR 0x20})"

definition regex_char :: "(char \<Rightarrow> bool) \<Rightarrow> string \<Rightarrow> string option" where
  "regex_char P s = (case s of [] \<Rightarrow> None | c # cs \<Rightarrow> if P c then Some cs else None)"

definition regex_plus :: "(char \<Rightarrow> bool) \<Rightarrow> string \<Rightarrow> (string \<times> string) option" where
  "regex_plus P s = (if takeWhile P s = [] then None else Some (takeWhile P s, dropWhile P s))"

definition regex_opt :: "(char \<Rightarrow> bool) \<Rightarrow> string \<Rightarrow> string" where
  "regex_opt P s = (case regex_char P s of None \<Rightarrow> s | Some cs \<Rightarrow> cs)"

definition DiffKeyValue_match :: "string \<Rightarrow> (string \<times> string) option" where
  "DiffKeyValue_match s =
     do {
       s1 \<leftarrow> regex_char (\<lambda>c. c = DQ) s;
       (key, s2) \<leftarrow> regex_plus is_key_char s1;
       s3 \<leftarrow> regex_char (\<lambda>c. c = DQ) s2;
       s4 \<leftarrow> regex_char (\<lambda>c. c = CHR '':'') s3;
       s5 \<leftarrow> regex_char is_space s4;
       s6 \<leftarrow> regex_char (\<lambda>c. c = DQ) s5;
       (val, s7) \<leftarrow> regex_plus is_value_char s6;
       s8 \<leftarrow> regex_char (\<lambda>c. c = DQ) s7;
       Some (key, regex_opt (\<lambda>c. c = CHR '','') s8)
     }"

function DiffKeyValue_ReplaceAllString :: "string \<Rightarrow> string" where
  "DiffKeyValue_ReplaceAllString [] = []"
| "DiffKeyValue_ReplaceAllString (c # cs) =
     (case DiffKeyValue_match (c # cs) of
        Some (key, rest) \<Rightarrow> key @ '': <omitted>'' @ DiffKeyValue_ReplaceAllString rest
      | None \<Rightarrow> c # DiffKeyValue_ReplaceAllString cs)"
  by pat_completeness auto
termination
proof (relation "measure length")
  show "wf (measure length)" by simp
next
  fix c cs x2 key rest
  assume m: "DiffKeyValue_match (c # cs) = Some x2" and x2: "(key, rest) = x2"
  have regex_char: "length r < length s" if "regex_char P s = Some r" for P s r
    using that by (auto simp: regex_char_def split: list.splits if_splits)
  have regex_plus: "length r \<le> length s" if "regex_plus P s = Some (k, r)" for P s k r
    using that length_dropWhile_le [of P s] by (auto simp: regex_plus_def split: if_splits)
  have regex_opt: "length (regex_opt P s) \<le> length s" for P s
    using regex_char [of P s] by (auto simp: regex_opt_def split: option.splits)
  from m x2 have "length rest < length (c # cs)"
    unfolding DiffKeyValue_match_def
    by (auto simp: bind_eq_Some_conv dest!: regex_char regex_plus intro!: le_less_trans [OF regex_opt])
  then show "(rest, c # cs) \<in> measure length" by simp
next
  fix c cs
  show "(cs, c # cs) \<in> measure length" by simp
qed

fun formatDiff :: "Diff list \<Rightarrow> bool \<Rightarrow> bool \<Rightarrow> string" where
  "formatDiff [] color omitchanges = []"
| "formatDiff (diff # diffs) color omitchanges =
     (let text = Text diff;
          text = (if omitchanges then DiffKeyValue_ReplaceAllString text else text)
      in (case Type diff of
            DiffInsert \<Rightarrow>
              (if color then ESC # ''[32m'' else []) @
              DiffLineStart_ReplaceAllString text ''+ '' @
              (if color then ESC # ''[0m'' else [])
          | DiffDelete \<Rightarrow>
              (if color then ESC # ''[31m'' else []) @
              DiffLineStart_ReplaceAllString text ''- '' @
              (if color then ESC # ''[0m'' else [])
          | DiffEqual \<Rightarrow>
              (if \<not> omitchanges then DiffLineStart_ReplaceAllString text ''  '' else [])))
     @ formatDiff diffs color omitchanges"

text \<open>
  The lines of a text, for the statements about the formatter: \<open>split_lines\<close> cuts a text at
  its newlines (the last piece is what follows the last newline), \<open>join_lines\<close> puts the
  pieces together again. \<open>prefix_nonempty\<close> puts the marker in front of every non-empty
  piece; \<open>prefix_every_line\<close> puts it in front of every line, empty ones too, where a line is
  a piece that a newline ends, or a non-empty last piece.
\<close>

fun split_lines :: "string \<Rightarrow> string list" where
  "split_lines [] = [[]]"
| "split_lines (c # cs) =
     (if c = LF then [] # split_lines cs
      else (case split_lines cs of [] \<Rightarrow> [[c]] | l # ls \<Rightarrow> (c # l) # ls))"

fun join_lines :: "string list \<Rightarrow> string" where
  "join_lines [] = []"
| "join_lines [l] = l"
| "join_lines (l # ls) = l @ LF # join_lines ls"

definition prefix_nonempty :: "string \<Rightarrow> string \<Rightarrow> string" where
  "prefix_nonempty marker text =
     join_lines (map (\<lambda>l. if l = [] then [] else marker @ l) (split_lines text))"

definition prefix_every_line :: "string \<Rightarrow> string \<Rightarrow> string" where
  "prefix_every_line marker text =
     (let ls = split_lines text
      in join_lines (map (\<lambda>l. marker @ l) (butlast ls) @
                     [if last ls = [] then [] else marker @ last ls]))"

text \<open>
  \<open>no_empty_lines\<close>: no line that a newline ends is empty. \<open>no_newline_at_line_start\<close> says
  the same of the characters: no newline stands where a line starts (\<open>at_start\<close> tells
  whether the text itself starts a line).
\<close>

definition no_empty_lines :: "string \<Rightarrow> bool" where
  "no_empty_lines t = list_all (\<lambda>l. l \<noteq> []) (butlast (split_lines t))"

fun no_newline_at_line_start :: "bool \<Rightarrow> string \<Rightarrow> bool" where
  "no_newline_at_line_start at_start [] = True"
| "no_newline_at_line_start at_start (c # cs) =
     (\<not> (at_start \<and> c = LF) \<and> no_newline_at_line_start (c = LF) cs)"

text \<open>
  The shape of the pattern, for the statements about the redaction: \<open>fragment key w val\<close>
  is the text \<^verbatim>\<open>"key":\<close>, the character \<open>w\<close>, \<^verbatim>\<open>"val"\<close>; \<open>kv_shape\<close> says that the key is a
  non-empty run of \<^verbatim>\<open>[-._a-zA-Z0-9]\<close>, \<open>w\<close> one whitespace character and the value a
  non-empty run of \<^verbatim>\<open>[[:alnum:]=+]\<close>. \<open>no_match_in pre s\<close> says that the pattern matches at
  no position of \<open>pre\<close> in the text \<open>pre @ s\<close>. \<open>quotes_escaped s\<close> says that a backslash
  stands before every double quote of \<open>s\<close>, as in the body of a JSON string.
  \<open>colored\<close> wraps a text in an ANSI colour and the reset sequence.
\<close>

definition fragment :: "string \<Rightarrow> char \<Rightarrow> string \<Rightarrow> string" where
  "fragment key w val = DQ # key @ DQ # CHR '':'' # w # DQ # val @ [DQ]"

definition kv_shape :: "string \<Rightarrow> char \<Rightarrow> string \<Rightarrow> bool" where
  "kv_shape key w val =
     (key \<noteq> [] \<and> list_all is_key_char key \<and> is_space w \<and> val \<noteq> [] \<and> list_all is_value_char val)"

fun no_match_in :: "string \<Rightarrow> string \<Rightarrow> bool" where
  "no_match_in [] s = True"
| "no_match_in (c # cs) s = (DiffKeyValue_match (c # cs @ s) = None \<and> no_match_in cs s)"

fun quotes_escaped_from :: "char \<Rightarrow> string \<Rightarrow> bool" where
  "quotes_escaped_from prev [] = True"
| "quotes_escaped_from prev (c # cs) = ((c = DQ \<longrightarrow> prev = BS) \<and> quotes_escaped_from c cs)"

definition quotes_escaped :: "string \<Rightarrow> bool" where
  "quotes_escaped s = quotes_escaped_from DQ s"

definition colored :: "bool \<Rightarrow> string \<Rightarrow> string \<Rightarrow> string" where
  "colored color code text = (if color then ESC # code @ text @ ESC # ''[0m'' else text)"

section \<open>The strategy dispatcher\<close>

text \<open>
  Errors: \<open>ext_error\<close> is an error that a collaborator returns, with its message and with
  what \<^verbatim>\<open>errors.IsNotFound\<close> says of it; \<open>Errorf\<close> is an error made by \<^verbatim>\<open>fmt.Errorf\<close>.

  An \<^verbatim>\<open>*unstructured.Unstructured\<close> is its \<^verbatim>\<open>Object\<close> map. The collaborators of \<^verbatim>\<open>Run\<close>
  (the discovery and REST clients, the packages \<^verbatim>\<open>utils\<close>, \<^verbatim>\<open>openapi\<close>, \<^verbatim>\<open>apiequality\<close>,
  \<^verbatim>\<open>json\<close>, \<^verbatim>\<open>isatty\<close> and the functions \<^verbatim>\<open>patch\<close> and \<^verbatim>\<open>isValidKindSchema\<close> of another
  file) are not part of \<^verbatim>\<open>diff.go\<close>; they are the fields of the record \<open>collaborators\<close>,
  and every theorem holds whatever they compute. \<open>AlphabeticalOrder\<close> is the sort of the
  first line of \<^verbatim>\<open>Run\<close>; \<open>CreationTimestampIsZero\<close> is
  \<^verbatim>\<open>GetCreationTimestamp().IsZero()\<close>; \<open>SetCreationTimestampZero\<close> and
  \<open>DeleteMetaDataAnnotation\<close> (of \<^verbatim>\<open>AnnotationOrigObject\<close>) update the object in place, so
  that the map read before the call is the updated one; \<open>IsTerminal\<close> is
  \<^verbatim>\<open>isatty.IsTerminal(os.Stdout.Fd())\<close>. \<open>MarshalIndent\<close> returns the text or an error;
  \<^verbatim>\<open>Run\<close> drops the error (\<^verbatim>\<open>text, _ := json.MarshalIndent(...)\<close>) and keeps the byte
  slice, which is nil when there is an error: \<open>text_of\<close>.
\<close>

datatype ext_error = ExtError (Error: string) (IsNotFound: bool)

datatype error = ErrDiffFound | Errorf string | External ext_error

type_synonym unstructured = "(string \<times> jvalue) list"

type_synonym gvk = "string \<times> string \<times> string"

record DiffCmd =
  DefaultNamespace :: string
  OmitSecrets :: bool
  DiffStrategy :: string

record ('doc, 'res, 'schema, 'client) collaborators =
  AlphabeticalOrder :: "unstructured list \<Rightarrow> unstructured list"
  OpenAPISchema :: "ext_error + 'doc"
  NewOpenAPIData :: "'doc \<Rightarrow> ext_error + 'res"
  ResourceNameFor :: "unstructured \<Rightarrow> string"
  FqName :: "unstructured \<Rightarrow> string"
  ClientForResource :: "unstructured \<Rightarrow> string \<Rightarrow> ext_error + 'client"
  GetName :: "unstructured \<Rightarrow> string"
  GetKind :: "unstructured \<Rightarrow> string"
  GroupVersionKind :: "unstructured \<Rightarrow> gvk"
  Get :: "'client \<Rightarrow> string \<Rightarrow> unstructured option \<times> ext_error option"
  LookupResource :: "'res \<Rightarrow> gvk \<Rightarrow> 'schema"
  isValidKindSchema :: "'schema \<Rightarrow> bool"
  patch :: "unstructured \<Rightarrow> unstructured \<Rightarrow> 'schema option \<Rightarrow> ext_error + unstructured"
  CreationTimestampIsZero :: "unstructured \<Rightarrow> bool"
  SetCreationTimestampZero :: "unstructured \<Rightarrow> unstructured"
  DeepEqual :: "unstructured \<Rightarrow> unstructured \<Rightarrow> bool"
  DeleteMetaDataAnnotation :: "unstructured \<Rightarrow> unstructured"
  MarshalIndent :: "unstructured \<Rightarrow> ext_error + string"
  EditScript :: "string \<Rightarrow> string \<Rightarrow> Diff list"
  IsTerminal :: bool

definition text_of :: "ext_error + string \<Rightarrow> string" where
  "text_of r = (case r of Inl err \<Rightarrow> [] | Inr text \<Rightarrow> text)"

text \<open>
  Modelled from the spec: the line differ (package \<^verbatim>\<open>diffmatchpatch\<close>: \<^verbatim>\<open>DiffLinesToChars\<close>,
  \<^verbatim>\<open>DiffMain\<close>, \<^verbatim>\<open>DiffCharsToLines\<close>, called in this order by \<^verbatim>\<open>Run\<close>) is missing from the
  sources. The specification (4.3): ``if the two documents serialize identically, the
  result is exactly one Equal segment spanning the whole text''. On two different texts the
  edit script is the collaborator's, \<open>EditScript\<close>.
\<close>

definition lineDiff :: "(string \<Rightarrow> string \<Rightarrow> Diff list) \<Rightarrow> string \<Rightarrow> string \<Rightarrow> Diff list" where
  "lineDiff script text1 text2 =
     (if text1 = text2 then [Diff DiffEqual text1] else script text1 text2)"

text \<open>
  \<^verbatim>\<open>Run\<close> writes to \<open>out\<close> and keeps the flag \<open>diffFound\<close>. One round of its loop either
  goes on to the next object (\<open>Next\<close>), returns from \<^verbatim>\<open>Run\<close> (\<open>Return\<close>, with \<open>None\<close> for
  \<^verbatim>\<open>nil\<close>), or panics in \<^verbatim>\<open>removeMapFields\<close> (\<open>Panicked\<close>); what was written stays written.
\<close>

datatype step =
    Next string bool
  | Return string "error option"
  | Panicked string panic

definition Run_body ::
  "DiffCmd \<Rightarrow> ('doc, 'res, 'schema, 'client) collaborators \<Rightarrow> 'res \<Rightarrow> unstructured \<Rightarrow>
   string \<Rightarrow> bool \<Rightarrow> step" where
  "Run_body c env schemaResources obj out diffFound =
     (let desc = ResourceNameFor env obj @ '' '' @ FqName env obj in
      case ClientForResource env obj (DefaultNamespace c) of
        Inl err \<Rightarrow> Return out (Some (External err))
      | Inr client \<Rightarrow>
          if GetName env obj = '''' then
            Return out (Some (Errorf (''Error fetching one of the '' @ ResourceNameFor env obj @
              '': it does not have a name set'')))
          else
            (case Get env client (GetName env obj) of
               (liveObj, err) \<Rightarrow>
                 (case (case err of
                          None \<Rightarrow> Inr liveObj
                        | Some e \<Rightarrow> if IsNotFound e then Inr None else Inl e) of
                    Inl e \<Rightarrow>
                      Return out (Some (Errorf (''Error fetching '' @ desc @ '': '' @ Error e)))
                  | Inr liveObj \<Rightarrow>
                      (let out = out @ ''---'' @ [LF];
                           out = out @ ''- live '' @ desc @ [LF] @ ''+ config '' @ desc @ [LF]
                       in
                       case liveObj of
                         None \<Rightarrow> Next (out @ desc @ '' doesn't exist on server'' @ [LF]) True
                       | Some liveObj \<Rightarrow>
                           if DiffStrategy c = ''update'' then
                             (let schema =
                                    LookupResource env schemaResources (GroupVersionKind env obj);
                                  schema =
                                    (if \<not> isValidKindSchema env schema then None else Some schema)
                              in
                              case patch env liveObj obj schema of
                                Inl err \<Rightarrow> Return out (Some (External err))
                              | Inr mergedObj \<Rightarrow>
                                  (let liveObj =
                                         (if CreationTimestampIsZero env mergedObj
                                          then SetCreationTimestampZero env liveObj else liveObj)
                                   in
                                   if DeepEqual env liveObj mergedObj then Return out None
                                   else
                                     (let liveObj = DeleteMetaDataAnnotation env liveObj;
                                          mergedObj = DeleteMetaDataAnnotation env mergedObj;
                                          liveObjText = text_of (MarshalIndent env liveObj);
                                          mergedObjText = text_of (MarshalIndent env mergedObj);
                                          diff = lineDiff (EditScript env) liveObjText mergedObjText
                                      in
                                      if length diff = 1 \<and> Type (diff ! 0) = DiffEqual then
                                        Return (out @ desc @ '' unchanged'' @ [LF]) None
                                      else
                                        (let text = formatDiff diff (IsTerminal env)
                                               (OmitSecrets c \<and> GetKind env obj = ''Secret'')
                                         in Return (out @ text @ [LF]) None))))
                           else
                             (case (if DiffStrategy c = ''subset''
                                    then removeMapFields obj liveObj else Inr liveObj) of
                                Inl p \<Rightarrow> Panicked out p
                              | Inr liveObjObject \<Rightarrow>
                                  (let liveObjText = text_of (MarshalIndent env liveObjObject);
                                       objText = text_of (MarshalIndent env obj);
                                       diff = lineDiff (EditScript env) liveObjText objText
                                   in
                                   if length diff = 1 \<and> Type (diff ! 0) = DiffEqual then
                                     Next (out @ desc @ '' unchanged'' @ [LF]) diffFound
                                   else
                                     (let text = formatDiff diff (IsTerminal env)
                                            (OmitSecrets c \<and> GetKind env obj = ''Secret'')
                                      in Next (out @ text @ [LF]) True)))))))"

fun Run_loop ::
  "DiffCmd \<Rightarrow> ('doc, 'res, 'schema, 'client) collaborators \<Rightarrow> 'res \<Rightarrow> unstructured list \<Rightarrow>
   string \<Rightarrow> bool \<Rightarrow> string \<times> (panic + error option)" where
  "Run_loop c env schemaResources [] out diffFound =
     (out, Inr (if diffFound then Some ErrDiffFound else None))"
| "Run_loop c env schemaResources (obj # apiObjects) out diffFound =
     (case Run_body c env schemaResources obj out diffFound of
        Next out diffFound \<Rightarrow> Run_loop c env schemaResources apiObjects out diffFound
      | Return out err \<Rightarrow> (out, Inr err)
      | Panicked out p \<Rightarrow> (out, Inl p))"

definition Run ::
  "DiffCmd \<Rightarrow> ('doc, 'res, 'schema, 'client) collaborators \<Rightarrow> unstructured list \<Rightarrow> string \<Rightarrow>
   string \<times> (panic + error option)" where
  "Run c env apiObjects out =
     (case OpenAPISchema env of
        Inl err \<Rightarrow> (out, Inr (Some (External err)))
      | Inr schemaDoc \<Rightarrow>
          (case NewOpenAPIData env schemaDoc of
             Inl err \<Rightarrow> (out, Inr (Some (External err)))
           | Inr schemaResources \<Rightarrow>
               Run_loop c env schemaResources (AlphabeticalOrder env apiObjects) out False))"

text \<open>
  One set of collaborators, to run the dispatcher on: a server that holds the config
  maps \<open>b\<close>, \<open>c\<close> and \<open>d\<close>, each with \<open>x: 1\<close>, and reports any other name as not found;
  a serializer that writes one line per entry and fails on a value of an unsupported
  type; a merge that returns the desired object; an edit script that deletes the first
  text and inserts the second. The sort leaves a list as it is: the lists below are
  sorted.
\<close>

definition name_of :: "unstructured \<Rightarrow> string" where
  "name_of obj = (case map_of obj ''name'' of Some (JString n) \<Rightarrow> n | _ \<Rightarrow> '''')"

definition demo_marshal :: "unstructured \<Rightarrow> ext_error + string" where
  "demo_marshal obj =
     (if list_ex (\<lambda>(k, v). case v of JOther t x \<Rightarrow> True | _ \<Rightarrow> False) obj
      then Inl (ExtError ''json: unsupported type'' False)
      else Inr (concat (map (\<lambda>(k, v). k @ '': '' @ (case v of JString s \<Rightarrow> s | _ \<Rightarrow> ''_'') @ [LF])
                         obj)))"

definition demo_collaborators ::
  "(string \<Rightarrow> unstructured option \<times> ext_error option) \<Rightarrow>
   (unit, unit, unit, unit) collaborators" where
  "demo_collaborators server =
     \<lparr> AlphabeticalOrder = (\<lambda>objs. objs),
       OpenAPISchema = Inr (),
       NewOpenAPIData = (\<lambda>doc. Inr ()),
       ResourceNameFor = (\<lambda>obj. ''configmaps''),
       FqName = name_of,
       ClientForResource = (\<lambda>obj ns. Inr ()),
       GetName = name_of,
       GetKind = (\<lambda>obj. ''ConfigMap''),
       GroupVersionKind = (\<lambda>obj. ('''', ''v1'', ''ConfigMap'')),
       Get = (\<lambda>client name. server name),
       LookupResource = (\<lambda>res kind. ()),
       isValidKindSchema = (\<lambda>schema. False),
       patch = (\<lambda>liveObj obj schema. Inr obj),
       CreationTimestampIsZero = (\<lambda>obj. False),
       SetCreationTimestampZero = (\<lambda>obj. obj),
       DeepEqual = (\<lambda>a b. a = b),
       DeleteMetaDataAnnotation = (\<lambda>obj. obj),
       MarshalIndent = demo_marshal,
       EditScript = (\<lambda>text1 text2. [Diff DiffDelete text1, Diff DiffInsert text2]),
       IsTerminal = False \<rparr>"

definition demo_server :: "string \<Rightarrow> unstructured option \<times> ext_error option" where
  "demo_server name =
     (if name \<in> {''b'', ''c'', ''d''}
      then (Some [(''name'', JString name), (''x'', JString ''1'')], None)
      else (None, Some (ExtError (''configmaps '' @ name @ '' not found'') True)))"

section \<open>Properties of the emptiness predicate and of the reducer\<close>

lemma isEmptyValue_decoded: "decoded v \<Longrightarrow> \<exists>e. isEmptyValue v = Inr e"
  by (cases v) auto

lemma reduce_total:
  "decoded c \<Longrightarrow> \<exists>r. removeFields c l = Inr r"
  "decoded_entries m \<Longrightarrow> \<exists>r. removeMapFields m ml = Inr r"
  "decoded_list cs \<Longrightarrow> \<exists>r. removeListFields cs ls = Inr r"
proof (induction c l and m ml and cs ls rule: removeFields_removeMapFields_removeListFields.induct)
  case (1 c live)
  then show ?case by (cases live) (auto split: sum.splits)
next
  case (2 c live)
  then show ?case by (cases live) (auto split: sum.splits)
next
  case (11 k v1 config live)
  from "11.prems" have dv: "decoded v1" and dc: "decoded_entries config" by simp_all
  obtain e where e: "isEmptyValue v1 = Inr e" using isEmptyValue_decoded [OF dv] by blast
  show ?case
  proof (cases "map_of live k")
    case None
    from "11.IH"(1) [OF None e dc] obtain r where "removeMapFields config live = Inr r" by blast
    with None e show ?thesis by simp
  next
    case (Some v2)
    from "11.IH"(2) [OF Some dv] obtain r where r: "removeFields v1 v2 = Inr r" by blast
    from "11.IH"(3) [OF Some r dc] obtain rs where "removeMapFields config live = Inr rs" by blast
    with Some r show ?thesis by simp
  qed
qed (auto split: sum.splits)

lemma removeMapFields_keys:
  "removeMapFields D L = Inr R \<Longrightarrow> set (map fst R) \<subseteq> set (map fst D)"
proof (induction D arbitrary: R)
  case Nil
  then show ?case by simp
next
  case (Cons a D)
  obtain k v1 where a: "a = (k, v1)" by (cases a)
  from Cons.prems obtain R' where R': "removeMapFields D L = Inr R'"
    and R: "set (map fst R) \<subseteq> insert k (set (map fst R'))"
    unfolding a by (auto split: option.splits sum.splits if_splits)
  from Cons.IH [OF R'] R have "set (map fst R) \<subseteq> insert k (set (map fst D))" by blast
  then show ?case unfolding a by simp
qed

lemma removeMapFields_lookup:
  assumes "removeMapFields D L = Inr R" and "distinct (map fst D)"
  shows "map_of R k =
    (case map_of D k of
       None \<Rightarrow> None
     | Some v1 \<Rightarrow>
        (case map_of L k of
           None \<Rightarrow> if isEmptyValue v1 = Inr True then Some v1 else None
         | Some v2 \<Rightarrow> (case removeFields v1 v2 of Inl p \<Rightarrow> None | Inr r \<Rightarrow> Some r)))"
  using assms
proof (induction D arbitrary: R)
  case Nil
  then show ?case by simp
next
  case (Cons a D)
  obtain k' v1 where a: "a = (k', v1)" by (cases a)
  from Cons.prems have dD: "distinct (map fst D)" and k': "k' \<notin> set (map fst D)"
    by (simp_all add: a)
  show ?case
  proof (cases "map_of L k'")
    case None
    with Cons.prems obtain e R' where e: "isEmptyValue v1 = Inr e"
      and R': "removeMapFields D L = Inr R'" and R: "R = (if e then (k', v1) # R' else R')"
      by (auto simp: a split: sum.splits)
    have k'R': "map_of R' k' = None"
      using removeMapFields_keys [OF R'] k' by (auto simp: map_of_eq_None_iff)
    have k'D: "map_of D k' = None"
      using k' by (simp add: map_of_eq_None_iff)
    show ?thesis
      using Cons.IH [OF R' dD] None e R k'R' k'D by (auto simp: a)
  next
    case (Some v2)
    with Cons.prems obtain r R' where r: "removeFields v1 v2 = Inr r"
      and R': "removeMapFields D L = Inr R'" and R: "R = (k', r) # R'"
      by (auto simp: a split: sum.splits)
    show ?thesis
      using Cons.IH [OF R' dD] Some r R by (auto simp: a)
  qed
qed

lemma decoded_entries_map_of: "decoded_entries m \<Longrightarrow> map_of m k = Some v \<Longrightarrow> decoded v"
  by (induction m) (auto split: if_splits)

lemma decoded_list_nth: "decoded_list vs \<Longrightarrow> i < length vs \<Longrightarrow> decoded (vs ! i)"
  by (induction vs arbitrary: i) (auto simp: nth_Cons split: nat.splits)

lemma removeMapFields_distinct:
  "removeMapFields D L = Inr R \<Longrightarrow> distinct (map fst D) \<Longrightarrow> distinct (map fst R)"
proof (induction D arbitrary: R)
  case Nil
  then show ?case by simp
next
  case (Cons a D)
  obtain k v1 where a: "a = (k, v1)" by (cases a)
  from Cons.prems obtain R' where R': "removeMapFields D L = Inr R'"
    and R: "R = R' \<or> (\<exists>r. R = (k, r) # R')"
    unfolding a by (auto split: option.splits sum.splits if_splits)
  from Cons.prems have k: "k \<notin> set (map fst D)" and dD: "distinct (map fst D)"
    unfolding a by simp_all
  from removeMapFields_keys [OF R'] k have "k \<notin> set (map fst R')" by blast
  with Cons.IH [OF R' dD] R show ?case by auto
qed

lemma removeListFields_nth:
  "removeListFields D L = Inr R \<Longrightarrow>
     length R = length L \<and>
     (\<forall>i<length L. if i < length D then removeFields (D ! i) (L ! i) = Inr (R ! i)
                    else R ! i = L ! i)"
proof (induction L arbitrary: D R)
  case Nil
  then show ?case by simp
next
  case (Cons v2 L)
  show ?case
  proof (cases D)
    case Nil
    with Cons.prems obtain R' where R': "removeListFields [] L = Inr R'" and R: "R = v2 # R'"
      by (auto split: sum.splits)
    from Cons.IH [OF R'] R Nil show ?thesis
      by (auto simp: nth_Cons split: nat.splits)
  next
    case (Cons c D')
    with Cons.prems obtain r R' where r: "removeFields c v2 = Inr r"
      and R': "removeListFields D' L = Inr R'" and R: "R = r # R'"
      by (auto split: sum.splits)
    from Cons.IH [OF R'] R Cons r show ?thesis
      by (auto simp: nth_Cons split: nat.splits)
  qed
qed

lemma distinct_keys_entries_iff:
  "distinct_keys_entries m = (\<forall>v \<in> set (map snd m). distinct_keys v)"
  by (induction m) auto

lemma distinct_keys_list_iff: "distinct_keys_list vs = (\<forall>v \<in> set vs. distinct_keys v)"
  by (induction vs) auto

lemma removeListFields_self:
  "(\<And>v. v \<in> set vs \<Longrightarrow> removeFields v v = Inr v) \<Longrightarrow> removeListFields vs vs = Inr vs"
  by (induction vs) simp_all

lemma removeMapFields_sub:
  assumes "distinct (map fst L)" and "set m \<subseteq> set L"
    and "\<And>k v. (k, v) \<in> set m \<Longrightarrow> removeFields v v = Inr v"
  shows "removeMapFields m L = Inr m"
  using assms(2,3)
proof (induction m)
  case Nil
  then show ?case by simp
next
  case (Cons a m)
  obtain k v where a: "a = (k, v)" by (cases a)
  from Cons.prems(1) have "(k, v) \<in> set L" by (simp add: a)
  with assms(1) have look: "map_of L k = Some v" by simp
  have self: "removeFields v v = Inr v" using Cons.prems(2) [of k v] by (simp add: a)
  have rest: "removeMapFields m L = Inr m"
    using Cons.IH Cons.prems by auto
  show ?case by (simp add: a look self rest)
qed

lemma reduce_self: "distinct_keys D \<Longrightarrow> removeFields D D = Inr D"
proof (induction D)
  case (JList vs)
  have "removeListFields vs vs = Inr vs"
    using JList by (intro removeListFields_self) (auto simp: distinct_keys_list_iff)
  then show ?case by simp
next
  case (JMap m)
  from JMap.prems have d: "distinct (map fst m)" and dk: "\<forall>v \<in> set (map snd m). distinct_keys v"
    by (simp_all add: distinct_keys_entries_iff)
  have "removeMapFields m m = Inr m"
  proof (rule removeMapFields_sub [OF d subset_refl])
    fix k v assume kv: "(k, v) \<in> set m"
    then have "distinct_keys v" using dk by force
    with JMap.IH kv show "removeFields v v = Inr v" by fastforce
  qed
  then show ?case by simp
qed simp_all

text \<open>
  C7: on every value of the closed decoded set (list, mapping, string, boolean, number,
  null) the emptiness predicate returns true exactly when the value is the zero value of
  its kind; on a value of any other type it panics instead of classifying it.
\<close>

theorem isEmptyValue_zero_value:
  "(in_closed_set v \<longrightarrow> isEmptyValue v = Inr (zero_value v)) \<and>
   (\<not> in_closed_set v \<longrightarrow> (\<exists>msg. isEmptyValue v = Inl (Panic msg)))"
  by (cases v) simp_all

theorem isEmptyValue_zero_value_witness:
  "isEmptyValue (JInt 0) = Inr True \<and> isEmptyValue (JString ''x'') = Inr False \<and>
   (\<exists>msg. isEmptyValue (JOther ''int32'' ''0'') = Inl (Panic msg))"
  using isEmptyValue_zero_value [of "JInt 0"] isEmptyValue_zero_value [of "JString ''x''"]
    isEmptyValue_zero_value [of "JOther ''int32'' ''0''"]
  by simp

text \<open>
  C1: for a desired mapping \<open>D\<close> (a decoded document with distinct keys) and any live
  mapping \<open>L\<close>, the map reduction returns a mapping \<open>R\<close> whose keys are among those of \<open>D\<close>:
  a key of \<open>D\<close> present in \<open>L\<close> is bound to the reduction of the two values; a key of \<open>D\<close>
  absent from \<open>L\<close> is bound to the value of \<open>D\<close> exactly when that value is empty, and is
  omitted otherwise; a key that is not in \<open>D\<close> is not in \<open>R\<close>.
\<close>

theorem removeMapFields_spec:
  assumes "distinct (map fst D)" and "decoded_entries D"
  shows "\<exists>R. removeMapFields D L = Inr R \<and>
    distinct (map fst R) \<and> set (map fst R) \<subseteq> set (map fst D) \<and>
    (\<forall>k v1 v2. map_of D k = Some v1 \<and> map_of L k = Some v2 \<longrightarrow>
       (\<exists>r. removeFields v1 v2 = Inr r \<and> map_of R k = Some r)) \<and>
    (\<forall>k v1. map_of D k = Some v1 \<and> map_of L k = None \<longrightarrow>
       map_of R k = (if isEmptyValue v1 = Inr True then Some v1 else None)) \<and>
    (\<forall>k. map_of D k = None \<longrightarrow> map_of R k = None)"
proof -
  from reduce_total(2) [OF assms(2)] obtain R where R: "removeMapFields D L = Inr R" by blast
  note look = removeMapFields_lookup [OF R assms(1)]
  have a: "\<exists>r. removeFields v1 v2 = Inr r \<and> map_of R k = Some r"
    if "map_of D k = Some v1" "map_of L k = Some v2" for k v1 v2
  proof -
    from decoded_entries_map_of [OF assms(2) that(1)] reduce_total(1)
    obtain r where "removeFields v1 v2 = Inr r" by blast
    with look [of k] that show ?thesis by simp
  qed
  have b: "map_of R k = (if isEmptyValue v1 = Inr True then Some v1 else None)"
    if "map_of D k = Some v1" "map_of L k = None" for k v1
    using look [of k] that by simp
  have c: "map_of R k = None" if "map_of D k = None" for k
    using look [of k] that by simp
  from R removeMapFields_distinct [OF R assms(1)] removeMapFields_keys [OF R] a b c
  show ?thesis by blast
qed

theorem removeMapFields_spec_witness:
  "distinct (map fst [(''a'', JInt 0), (''b'', JInt 1), (''c'', JInt 5)]) \<and>
   decoded_entries [(''a'', JInt 0), (''b'', JInt 1), (''c'', JInt 5)] \<and>
   (\<exists>R. removeMapFields [(''a'', JInt 0), (''b'', JInt 1), (''c'', JInt 5)]
          [(''b'', JInt 1), (''z'', JInt 2)] = Inr R \<and>
        map_of R ''a'' = Some (JInt 0) \<and> map_of R ''b'' = Some (JInt 1) \<and>
        map_of R ''c'' = None \<and> map_of R ''z'' = None)"
proof -
  have h1: "distinct (map fst [(''a'', JInt 0), (''b'', JInt 1), (''c'', JInt 5)])" by simp
  have h2: "decoded_entries [(''a'', JInt 0), (''b'', JInt 1), (''c'', JInt 5)]" by simp
  show ?thesis
    using h1 h2 removeMapFields_spec [OF h1 h2, of "[(''b'', JInt 1), (''z'', JInt 2)]"]
    by simp
qed

text \<open>
  C2: for a desired list \<open>D\<close> (of decoded documents) and any live list \<open>L\<close>, the list
  reduction returns a list as long as \<open>L\<close>, whose element \<open>i\<close> is the reduction of
  \<open>D[i]\<close> and \<open>L[i]\<close> when \<open>i\<close> is in the range of \<open>D\<close>, and \<open>L[i]\<close> itself otherwise.
\<close>

theorem removeListFields_spec:
  assumes "decoded_list D"
  shows "\<exists>R. removeListFields D L = Inr R \<and> length R = length L \<and>
    (\<forall>i<length L. if i < length D then removeFields (D ! i) (L ! i) = Inr (R ! i)
                   else R ! i = L ! i)"
proof -
  from reduce_total(3) [OF assms] obtain R where R: "removeListFields D L = Inr R" by blast
  from removeListFields_nth [OF R] R show ?thesis by blast
qed

theorem removeListFields_spec_witness:
  "decoded_list [JInt 1] \<and>
   (\<exists>R. removeListFields [JInt 1] [JInt 1, JInt 2] = Inr R \<and> length R = 2 \<and>
        R ! 0 = JInt 1 \<and> R ! 1 = JInt 2)"
proof -
  have h: "decoded_list [JInt 1]" by simp
  show ?thesis
    using h removeListFields_spec [OF h, of "[JInt 1, JInt 2]"] by simp
qed

text \<open>
  C8: reducing a document against itself gives the document back. No emptiness test is
  made on the way, so that this holds of every value whose maps have distinct keys.
\<close>

theorem removeFields_identity:
  assumes "distinct_keys D"
  shows "removeFields D D = Inr D \<and> (\<forall>m. D = JMap m \<longrightarrow> removeMapFields m m = Inr m)"
  using reduce_self [OF assms] by (auto split: sum.splits)

theorem removeFields_identity_witness:
  "distinct_keys (JMap [(''a'', JInt 1), (''b'', JList [JString ''x'', JMap []])]) \<and>
   removeFields (JMap [(''a'', JInt 1), (''b'', JList [JString ''x'', JMap []])])
     (JMap [(''a'', JInt 1), (''b'', JList [JString ''x'', JMap []])]) =
   Inr (JMap [(''a'', JInt 1), (''b'', JList [JString ''x'', JMap []])])"
proof -
  have h: "distinct_keys (JMap [(''a'', JInt 1), (''b'', JList [JString ''x'', JMap []])])"
    by simp
  show ?thesis using h removeFields_identity [OF h] by simp
qed

section \<open>Properties of the formatter\<close>

subsection \<open>Line prefixes\<close>

lemma join_lines_Cons:
  "join_lines (l # ls) = l @ (if ls = [] then [] else LF # join_lines ls)"
  by (cases ls) simp_all

lemma split_lines_nonempty: "split_lines s \<noteq> []"
  by (induction s) (auto split: list.splits)

lemma DiffLineStart_scan_lines:
  "DiffLineStart_scan m b s =
     join_lines ((if b \<and> hd (split_lines s) \<noteq> [] then m @ hd (split_lines s) else hd (split_lines s)) #
                 map (\<lambda>l. if l = [] then [] else m @ l) (tl (split_lines s)))"
proof (induction m b s rule: DiffLineStart_scan.induct)
  case (1 repl at_begin)
  then show ?case by simp
next
  case (2 repl at_begin c cs)
  let ?f = "\<lambda>l. if l = [] then [] else repl @ l"
  obtain l ls where sp: "split_lines cs = l # ls"
    using split_lines_nonempty [of cs] by (cases "split_lines cs") auto
  show ?case
  proof (cases "c = LF")
    case False
    with "2.IH" have "DiffLineStart_scan repl False cs = join_lines (l # map ?f ls)"
      by (cases at_begin) (simp_all add: sp)
    with False sp show ?thesis by (auto simp: join_lines_Cons)
  next
    case True
    show ?thesis
    proof (cases cs)
      case Nil
      with True show ?thesis by simp
    next
      case (Cons d ds)
      obtain l' ls' where sp': "split_lines ds = l' # ls'"
        using split_lines_nonempty [of ds] by (cases "split_lines ds") auto
      show ?thesis
      proof (cases "d = LF")
        case dLF: True
        have l: "l = []" and ls: "ls = l' # ls'" using sp Cons dLF sp' by simp_all
        from "2.IH"(3) True Cons dLF
        have "DiffLineStart_scan repl False cs = join_lines (l # map ?f ls)"
          by (simp add: l ls sp')
        then have "DiffLineStart_scan repl at_begin (c # cs) = LF # join_lines (l # map ?f ls)"
          using True Cons dLF by simp
        moreover have "split_lines (c # cs) = [] # l # ls" using True sp by simp
        ultimately show ?thesis by (simp add: l)
      next
        case dN: False
        have l: "l = d # l'" and ls: "ls = ls'" using sp Cons dN sp' by simp_all
        from "2.IH"(2) True Cons dN
        have "DiffLineStart_scan repl False ds = join_lines (l' # map ?f ls')"
          by (simp add: sp')
        then have "DiffLineStart_scan repl at_begin (c # cs) =
            LF # repl @ d # join_lines (l' # map ?f ls')"
          using True Cons dN by simp
        moreover have "split_lines (c # cs) = [] # l # ls" using True sp by simp
        ultimately show ?thesis by (simp add: l ls join_lines_Cons)
      qed
    qed
  qed
qed

lemma DiffLineStart_prefix_nonempty:
  "DiffLineStart_ReplaceAllString t marker = prefix_nonempty marker t"
proof -
  obtain l ls where sp: "split_lines t = l # ls"
    using split_lines_nonempty [of t] by (cases "split_lines t") auto
  show ?thesis
    unfolding DiffLineStart_ReplaceAllString_def prefix_nonempty_def
    by (simp add: DiffLineStart_scan_lines sp)
qed

lemma formatDiff_append:
  "formatDiff (ds1 @ ds2) color omit = formatDiff ds1 color omit @ formatDiff ds2 color omit"
  by (induction ds1) (simp_all add: Let_def)

lemma formatDiff_concat:
  "formatDiff ds color omit = concat (map (\<lambda>d. formatDiff [d] color omit) ds)"
  by (induction ds) (simp_all add: Let_def)

subsection \<open>The key-value pattern\<close>

lemma not_key_char [simp]:
  "\<not> is_key_char DQ" "\<not> is_key_char BS" "\<not> is_key_char (CHR '':'')"
  by (simp_all add: is_key_char_def is_alnum_def)

lemma not_value_char [simp]: "\<not> is_value_char DQ" "\<not> is_value_char BS"
  by (simp_all add: is_value_char_def is_alnum_def)

lemma is_space_not_DQ: "is_space w \<Longrightarrow> w \<noteq> DQ"
  by (auto simp: is_space_def)

lemma regex_char_Some: "regex_char P s = Some r \<longleftrightarrow> (\<exists>c. s = c # r \<and> P c)"
  by (cases s) (auto simp: regex_char_def)

lemma regex_plus_Some:
  "regex_plus P s = Some (k, r) \<longleftrightarrow>
     k \<noteq> [] \<and> (\<forall>c\<in>set k. P c) \<and> s = k @ r \<and> (r = [] \<or> \<not> P (hd r))"
proof
  assume "regex_plus P s = Some (k, r)"
  then have k: "k = takeWhile P s" and r: "r = dropWhile P s" and ne: "k \<noteq> []"
    by (auto simp: regex_plus_def split: if_splits)
  have "r = [] \<or> \<not> P (hd r)" unfolding r by (metis hd_dropWhile)
  with k r ne show "k \<noteq> [] \<and> (\<forall>c\<in>set k. P c) \<and> s = k @ r \<and> (r = [] \<or> \<not> P (hd r))"
    by (auto dest: set_takeWhileD)
next
  assume a: "k \<noteq> [] \<and> (\<forall>c\<in>set k. P c) \<and> s = k @ r \<and> (r = [] \<or> \<not> P (hd r))"
  then have "takeWhile P r = []" by (cases r) auto
  moreover from this have "dropWhile P r = r" by (cases r) (auto split: if_splits)
  ultimately show "regex_plus P s = Some (k, r)"
    using a by (simp add: regex_plus_def takeWhile_append2 dropWhile_append2)
qed

lemma regex_opt_eq:
  "regex_opt P s = r \<longleftrightarrow> (\<exists>c. s = c # r \<and> P c) \<or> (s = r \<and> (r = [] \<or> \<not> P (hd r)))"
  by (cases s) (auto simp: regex_opt_def regex_char_def)

lemma DiffKeyValue_match_iff:
  "DiffKeyValue_match s = Some (key, rest) \<longleftrightarrow>
     (\<exists>w val. kv_shape key w val \<and>
        (s = fragment key w val @ CHR '','' # rest \<or>
         s = fragment key w val @ rest \<and> (rest = [] \<or> hd rest \<noteq> CHR '','')))"
  (is "?L \<longleftrightarrow> ?R")
proof
  assume ?L
  then obtain s2 w s6 val s7 s8 where
    k: "regex_plus is_key_char (tl s) = Some (key, s2)" and s: "s = DQ # tl s"
    and s2: "s2 = DQ # CHR '':'' # w # DQ # s6" and w: "is_space w"
    and v: "regex_plus is_value_char s6 = Some (val, s7)" and s7: "s7 = DQ # s8"
    and r: "regex_opt (\<lambda>c. c = CHR '','') s8 = rest"
    unfolding DiffKeyValue_match_def
    by (auto simp: bind_eq_Some_conv regex_char_Some)
  from k v have "kv_shape key w val" and "tl s = key @ s2" and "s6 = val @ s7"
    by (auto simp: regex_plus_Some kv_shape_def list_all_iff w)
  moreover from r have "s8 = CHR '','' # rest \<or> s8 = rest \<and> (rest = [] \<or> hd rest \<noteq> CHR '','')"
    by (auto simp: regex_opt_eq)
  ultimately show ?R
    using s s2 s7 by (auto simp: fragment_def)
next
  assume ?R
  then obtain w val s8 where sh: "kv_shape key w val"
    and s: "s = fragment key w val @ s8"
    and s8: "s8 = CHR '','' # rest \<or> s8 = rest \<and> (rest = [] \<or> hd rest \<noteq> CHR '','')"
    by auto
  have k: "regex_plus is_key_char (key @ DQ # CHR '':'' # w # DQ # val @ DQ # s8) =
      Some (key, DQ # CHR '':'' # w # DQ # val @ DQ # s8)"
    using sh by (simp add: regex_plus_Some kv_shape_def list_all_iff)
  have v: "regex_plus is_value_char (val @ DQ # s8) = Some (val, DQ # s8)"
    using sh by (simp add: regex_plus_Some kv_shape_def list_all_iff)
  have r: "regex_opt (\<lambda>c. c = CHR '','') s8 = rest"
    using s8 by (auto simp: regex_opt_eq)
  have w: "is_space w" using sh by (simp add: kv_shape_def)
  show ?L
    unfolding DiffKeyValue_match_def s fragment_def
    by (simp add: regex_char_def k v r w)
qed

lemma DiffKeyValue_match_starts: "DiffKeyValue_match (c # cs) = Some x \<Longrightarrow> c = DQ"
  by (auto simp: DiffKeyValue_match_def regex_char_def bind_eq_Some_conv split: if_splits)

lemma ReplaceAll_fragment:
  assumes "kv_shape key w val"
  shows "DiffKeyValue_ReplaceAllString (fragment key w val @ CHR '','' # rest) =
           key @ '': <omitted>'' @ DiffKeyValue_ReplaceAllString rest"
    and "rest = [] \<or> hd rest \<noteq> CHR '','' \<Longrightarrow>
         DiffKeyValue_ReplaceAllString (fragment key w val @ rest) =
           key @ '': <omitted>'' @ DiffKeyValue_ReplaceAllString rest"
proof -
  have 1: "DiffKeyValue_match (fragment key w val @ CHR '','' # rest) = Some (key, rest)"
    using assms by (auto simp: DiffKeyValue_match_iff)
  have 2: "DiffKeyValue_match (fragment key w val @ rest) = Some (key, rest)"
    if "rest = [] \<or> hd rest \<noteq> CHR '',''"
    using assms that by (auto simp: DiffKeyValue_match_iff)
  obtain xs where f: "fragment key w val = DQ # xs" by (simp add: fragment_def)
  show "DiffKeyValue_ReplaceAllString (fragment key w val @ CHR '','' # rest) =
           key @ '': <omitted>'' @ DiffKeyValue_ReplaceAllString rest"
    using 1 unfolding f by simp
  show "DiffKeyValue_ReplaceAllString (fragment key w val @ rest) =
           key @ '': <omitted>'' @ DiffKeyValue_ReplaceAllString rest"
    if "rest = [] \<or> hd rest \<noteq> CHR '',''"
    using 2 [OF that] unfolding f by simp
qed

lemma ReplaceAll_no_match:
  "no_match_in pre s \<Longrightarrow>
     DiffKeyValue_ReplaceAllString (pre @ s) = pre @ DiffKeyValue_ReplaceAllString s"
  by (induction pre) simp_all

lemma no_match_in_append:
  "no_match_in (a @ b) s \<longleftrightarrow> no_match_in a (b @ s) \<and> no_match_in b s"
  by (induction a) simp_all

lemma no_match_in_no_quote: "DQ \<notin> set a \<Longrightarrow> no_match_in a s"
proof (induction a)
  case Nil
  then show ?case by simp
next
  case (Cons c a)
  then have "DiffKeyValue_match (c # a @ s) = None"
    using DiffKeyValue_match_starts [of c "a @ s"] by (cases "DiffKeyValue_match (c # a @ s)") auto
  with Cons show ?case by simp
qed

lemma not_no_match_in:
  "\<not> no_match_in a s \<Longrightarrow> \<exists>p q. a = p @ q \<and> q \<noteq> [] \<and> DiffKeyValue_match (q @ s) \<noteq> None"
proof (induction a)
  case Nil
  then show ?case by simp
next
  case (Cons c a)
  show ?case
  proof (cases "DiffKeyValue_match (c # a @ s) = None")
    case True
    with Cons obtain p q where "a = p @ q" "q \<noteq> []" "DiffKeyValue_match (q @ s) \<noteq> None"
      by auto
    then have "c # a = (c # p) @ q \<and> q \<noteq> [] \<and> DiffKeyValue_match (q @ s) \<noteq> None" by simp
    then show ?thesis by blast
  next
    case False
    then have "c # a = [] @ (c # a) \<and> c # a \<noteq> [] \<and> DiffKeyValue_match ((c # a) @ s) \<noteq> None"
      by simp
    then show ?thesis by blast
  qed
qed

lemma quotes_escaped_from_quote:
  "quotes_escaped_from p (k @ DQ # us) \<Longrightarrow> (if k = [] then p else last k) = BS"
  by (induction k arbitrary: p) (auto split: if_splits)

lemma first_quote_unique:
  assumes eq: "a @ DQ # b = k @ DQ # c" and k: "DQ \<notin> set k" "BS \<notin> set k"
    and a: "quotes_escaped_from DQ a"
  shows "a = k \<and> b = c"
proof -
  from eq obtain us where
    "a = k @ us \<and> us @ DQ # b = DQ # c \<or> a @ us = k \<and> DQ # b = us @ DQ # c"
    by (auto simp: append_eq_append_conv2)
  then show ?thesis
  proof
    assume h: "a = k @ us \<and> us @ DQ # b = DQ # c"
    show ?thesis
    proof (cases us)
      case Nil
      with h show ?thesis by simp
    next
      case (Cons u us')
      with h have u: "u = DQ" by simp
      with h Cons a have "quotes_escaped_from DQ (k @ DQ # us')" by simp
      from quotes_escaped_from_quote [OF this] k have False
        by (cases "k = []") (auto dest: last_in_set)
      then show ?thesis ..
    qed
  next
    assume h: "a @ us = k \<and> DQ # b = us @ DQ # c"
    show ?thesis
    proof (cases us)
      case Nil
      with h show ?thesis by simp
    next
      case (Cons u us')
      with h have "u = DQ" by simp
      with h Cons k have False by auto
      then show ?thesis ..
    qed
  qed
qed

lemma kv_shape_key_chars: "kv_shape key w val \<Longrightarrow> DQ \<notin> set key \<and> BS \<notin> set key"
  by (auto simp: kv_shape_def list_all_iff)

lemma kv_shape_value_chars: "kv_shape key w val \<Longrightarrow> DQ \<notin> set val \<and> BS \<notin> set val"
  by (auto simp: kv_shape_def list_all_iff)

lemma match_decompose:
  assumes "DiffKeyValue_match (DQ # x) = Some (key, rest)"
  obtains w val s8 where "kv_shape key w val"
    and "x = key @ DQ # CHR '':'' # w # DQ # val @ DQ # s8"
  using assms by (auto simp: DiffKeyValue_match_iff fragment_def)

lemma no_match_closing:
  assumes a: "quotes_escaped_from DQ a" and post: "DQ \<notin> set post"
  shows "DiffKeyValue_match (DQ # a @ DQ # post) = None"
proof (rule ccontr)
  assume "DiffKeyValue_match (DQ # a @ DQ # post) \<noteq> None"
  then obtain key rest where "DiffKeyValue_match (DQ # a @ DQ # post) = Some (key, rest)"
    by auto
  then obtain w val s8 where sh: "kv_shape key w val"
    and eq: "a @ DQ # post = key @ DQ # CHR '':'' # w # DQ # val @ DQ # s8"
    by (rule match_decompose)
  from first_quote_unique [OF eq _ _ a] kv_shape_key_chars [OF sh]
  have "post = CHR '':'' # w # DQ # val @ DQ # s8" by simp
  with post show False by simp
qed

lemma no_match_value:
  assumes a: "quotes_escaped_from DQ a" and v: "quotes_escaped_from DQ val"
    and bad: "\<exists>c\<in>set val. \<not> is_value_char c"
  shows "DiffKeyValue_match (DQ # a @ DQ # CHR '':'' # w # DQ # val @ DQ # post) = None"
proof (rule ccontr)
  assume "DiffKeyValue_match (DQ # a @ DQ # CHR '':'' # w # DQ # val @ DQ # post) \<noteq> None"
  then obtain key rest where
    "DiffKeyValue_match (DQ # a @ DQ # CHR '':'' # w # DQ # val @ DQ # post) = Some (key, rest)"
    by auto
  then obtain w' val' s8 where sh: "kv_shape key w' val'"
    and eq: "a @ DQ # CHR '':'' # w # DQ # val @ DQ # post =
             key @ DQ # CHR '':'' # w' # DQ # val' @ DQ # s8"
    by (rule match_decompose)
  from first_quote_unique [OF eq _ _ a] kv_shape_key_chars [OF sh]
  have eq2: "val @ DQ # post = val' @ DQ # s8" by simp
  from first_quote_unique [OF eq2 _ _ v] kv_shape_value_chars [OF sh]
  have "val = val'" by simp
  with sh bad show False by (auto simp: kv_shape_def list_all_iff)
qed

lemma no_match_in_escaped:
  assumes "quotes_escaped_from p a"
    and "\<And>a'. quotes_escaped_from DQ a' \<Longrightarrow> DiffKeyValue_match (DQ # a' @ s) = None"
  shows "no_match_in a s"
  using assms(1)
proof (induction a arbitrary: p)
  case Nil
  then show ?case by simp
next
  case (Cons c a)
  have "DiffKeyValue_match (c # a @ s) = None"
  proof (cases "c = DQ")
    case True
    with Cons.prems assms(2) [of a] show ?thesis by simp
  next
    case False
    then show ?thesis
      using DiffKeyValue_match_starts [of c "a @ s"]
      by (cases "DiffKeyValue_match (c # a @ s)") auto
  qed
  moreover from Cons.prems have "quotes_escaped_from c a" by simp
  then have "no_match_in a s" by (rule Cons.IH)
  ultimately show ?case by simp
qed

lemma no_match_colon: "DiffKeyValue_match (DQ # CHR '':'' # xs) = None"
  by (simp add: DiffKeyValue_match_def regex_char_def regex_plus_def)

lemma no_match_last_quote:
  assumes "DQ \<notin> set post"
  shows "DiffKeyValue_match (DQ # post) = None"
proof (rule ccontr)
  assume "DiffKeyValue_match (DQ # post) \<noteq> None"
  then obtain key rest where "DiffKeyValue_match (DQ # post) = Some (key, rest)" by auto
  then obtain w val s8 where "post = key @ DQ # CHR '':'' # w # DQ # val @ DQ # s8"
    by (rule match_decompose)
  with assms show False by simp
qed

lemma ReplaceAll_verbatim:
  assumes pre: "DQ \<notin> set pre" and post: "DQ \<notin> set post"
    and key: "quotes_escaped key" and val: "quotes_escaped val"
    and bad: "\<exists>c\<in>set val. \<not> is_value_char c" and w: "w \<noteq> DQ"
  shows "DiffKeyValue_ReplaceAllString (pre @ fragment key w val @ post) =
         pre @ fragment key w val @ post"
proof -
  let ?tail = "DQ # CHR '':'' # w # DQ # val @ DQ # post"
  have k: "quotes_escaped_from DQ key" and v: "quotes_escaped_from DQ val"
    using key val by (simp_all add: quotes_escaped_def)
  have 1: "no_match_in pre (DQ # key @ ?tail)"
    by (rule no_match_in_no_quote [OF pre])
  have 2: "DiffKeyValue_match (DQ # key @ ?tail) = None"
    by (rule no_match_value [OF k v bad])
  have 3: "no_match_in key ?tail"
    by (rule no_match_in_escaped [OF k]) (rule no_match_value [OF _ v bad])
  have 4: "DiffKeyValue_match ?tail = None" by (rule no_match_colon)
  have 5: "no_match_in [CHR '':'', w] (DQ # val @ DQ # post)"
    using w by (intro no_match_in_no_quote) simp
  have 6: "DiffKeyValue_match (DQ # val @ DQ # post) = None"
    by (rule no_match_closing [OF v post])
  have 7: "no_match_in val (DQ # post)"
    by (rule no_match_in_escaped [OF v]) (rule no_match_closing [OF _ post])
  have 8: "DiffKeyValue_match (DQ # post) = None" by (rule no_match_last_quote [OF post])
  have 9: "no_match_in post []" by (rule no_match_in_no_quote [OF post])
  have "no_match_in (pre @ [DQ] @ key @ [DQ] @ [CHR '':'', w] @ [DQ] @ val @ [DQ] @ post) []"
    unfolding no_match_in_append using 1 2 3 4 5 6 7 8 9 by simp
  then have "no_match_in (pre @ fragment key w val @ post) []"
    by (simp add: fragment_def)
  from ReplaceAll_no_match [OF this] show ?thesis by simp
qed

lemma ReplaceAll_changed:
  assumes "DiffKeyValue_ReplaceAllString t \<noteq> t"
  shows "\<exists>pre key w val post. t = pre @ fragment key w val @ post \<and> kv_shape key w val"
proof -
  have "\<not> no_match_in t []"
    using assms ReplaceAll_no_match [of t "[]"] by auto
  from not_no_match_in [OF this] obtain p q key rest where t: "t = p @ q"
    and m: "DiffKeyValue_match q = Some (key, rest)" by auto
  from m obtain w val where "kv_shape key w val"
    and "q = fragment key w val @ CHR '','' # rest \<or> q = fragment key w val @ rest"
    by (auto simp: DiffKeyValue_match_iff)
  with t show ?thesis by blast
qed

lemma prefix_every_line_eq:
  assumes "no_empty_lines t"
  shows "prefix_nonempty marker t = prefix_every_line marker t"
proof -
  let ?ls = "split_lines t"
  have ne: "?ls \<noteq> []" by (rule split_lines_nonempty)
  then have ls: "?ls = butlast ?ls @ [last ?ls]" by simp
  have "map (\<lambda>l. if l = [] then [] else marker @ l) ?ls =
        map (\<lambda>l. if l = [] then [] else marker @ l) (butlast ?ls) @
        [if last ?ls = [] then [] else marker @ last ?ls]"
    by (subst ls) simp
  moreover have "map (\<lambda>l. if l = [] then [] else marker @ l) (butlast ?ls) =
        map (\<lambda>l. marker @ l) (butlast ?ls)"
    using assms by (intro map_cong) (auto simp: no_empty_lines_def list_all_iff)
  ultimately show ?thesis
    by (simp add: prefix_nonempty_def prefix_every_line_def Let_def)
qed

lemma no_newline_split:
  "no_newline_at_line_start b t =
     (case split_lines t of
        [] \<Rightarrow> True
      | l # ls \<Rightarrow> ls \<noteq> [] \<longrightarrow> (b \<longrightarrow> l \<noteq> []) \<and> list_all (\<lambda>l. l \<noteq> []) (butlast ls))"
proof (induction t arbitrary: b)
  case Nil
  then show ?case by simp
next
  case (Cons c cs)
  obtain l ls where sp: "split_lines cs = l # ls"
    using split_lines_nonempty [of cs] by (cases "split_lines cs") auto
  show ?case
  proof (cases "c = LF")
    case True
    with Cons [of True] sp show ?thesis by auto
  next
    case False
    with Cons [of False] sp show ?thesis by auto
  qed
qed

lemma no_empty_lines_scan: "no_empty_lines t = no_newline_at_line_start True t"
proof -
  obtain l ls where sp: "split_lines t = l # ls"
    using split_lines_nonempty [of t] by (cases "split_lines t") auto
  show ?thesis by (auto simp: no_empty_lines_def no_newline_split sp)
qed

lemma no_newline_append:
  "a \<noteq> [] \<Longrightarrow> no_newline_at_line_start b (a @ r) \<Longrightarrow> no_newline_at_line_start (last a = LF) r"
  by (induction a arbitrary: b) (auto split: if_splits)

lemma no_newline_prepend:
  "a \<noteq> [] \<Longrightarrow> LF \<notin> set a \<Longrightarrow> no_newline_at_line_start False r \<Longrightarrow>
     no_newline_at_line_start b (a @ r)"
proof (induction a arbitrary: b)
  case Nil
  then show ?case by simp
next
  case (Cons c a)
  show ?case
  proof (cases "a = []")
    case True
    with Cons.prems show ?thesis by simp
  next
    case False
    with Cons show ?thesis by auto
  qed
qed

lemma ReplaceAll_no_newline:
  "no_newline_at_line_start b s \<Longrightarrow> no_newline_at_line_start b (DiffKeyValue_ReplaceAllString s)"
proof (induction s arbitrary: b rule: DiffKeyValue_ReplaceAllString.induct)
  case 1
  then show ?case by simp
next
  case (2 c cs)
  show ?case
  proof (cases "DiffKeyValue_match (c # cs)")
    case None
    with 2 show ?thesis by auto
  next
    case (Some x)
    obtain key rest where x: "x = (key, rest)" by (cases x)
    from Some x obtain w val where sh: "kv_shape key w val"
      and s: "c # cs = fragment key w val @ CHR '','' # rest \<or> c # cs = fragment key w val @ rest"
      by (auto simp: DiffKeyValue_match_iff)
    have rest: "no_newline_at_line_start False rest"
    proof -
      from s show ?thesis
      proof
        assume e: "c # cs = fragment key w val @ CHR '','' # rest"
        have "no_newline_at_line_start b ((fragment key w val @ '','') @ rest)"
          using "2.prems" e by simp
        from no_newline_append [OF _ this] show ?thesis by simp
      next
        assume e: "c # cs = fragment key w val @ rest"
        have "no_newline_at_line_start b (fragment key w val @ rest)"
          using "2.prems" e by simp
        from no_newline_append [OF _ this] show ?thesis by (simp add: fragment_def)
      qed
    qed
    have IH: "no_newline_at_line_start False (DiffKeyValue_ReplaceAllString rest)"
      using "2.IH"(2) [OF Some x [symmetric] rest] .
    have "\<not> is_key_char LF" by (simp add: is_key_char_def is_alnum_def)
    with sh have key: "LF \<notin> set key"
      by (auto simp: kv_shape_def list_all_iff)
    have "LF \<notin> set (key @ '': <omitted>'')" using key by simp
    then have "no_newline_at_line_start b ((key @ '': <omitted>'') @ DiffKeyValue_ReplaceAllString rest)"
      by (intro no_newline_prepend IH) simp_all
    with Some x show ?thesis by simp
  qed
qed

lemma ReplaceAll_no_empty_lines:
  "no_empty_lines t \<Longrightarrow> no_empty_lines (DiffKeyValue_ReplaceAllString t)"
  by (simp add: no_empty_lines_scan ReplaceAll_no_newline)

lemma formatDiff_single:
  "formatDiff [Diff DiffInsert t] color omit =
     colored color ''[32m'' (prefix_nonempty ''+ '' (if omit then DiffKeyValue_ReplaceAllString t else t))"
  "formatDiff [Diff DiffDelete t] color omit =
     colored color ''[31m'' (prefix_nonempty ''- '' (if omit then DiffKeyValue_ReplaceAllString t else t))"
  "formatDiff [Diff DiffEqual t] color omit = (if omit then [] else prefix_nonempty ''  '' t)"
  by (simp_all add: colored_def DiffLineStart_prefix_nonempty)

lemmas eval_defs = DiffLineStart_ReplaceAllString_def fragment_def kv_shape_def
  DiffKeyValue_match_def regex_char_def regex_plus_def regex_opt_def
  is_key_char_def is_value_char_def is_alnum_def is_space_def

text \<open>
  C5, as the code has it by design: the formatter handles the segments one after the
  other. On a text without an empty line it puts \<^verbatim>\<open>+ \<close> in front of every line of an Insert
  segment, \<^verbatim>\<open>- \<close> in front of every line of a Delete segment and, without redaction, two
  spaces in front of every line of an Equal segment. With redaction an Equal segment gives
  no output, and in an Insert or Delete text the scan replaces a fragment of the key-value
  shape, together with a comma that directly follows it, by \<^verbatim>\<open>key: <omitted>\<close> and copies
  the text in which no fragment starts. What happens to an empty line is left open here.
\<close>

theorem formatDiff_spec:
  "formatDiff ds color omit = concat (map (\<lambda>d. formatDiff [d] color omit) ds) \<and>
   (no_empty_lines t \<longrightarrow>
      formatDiff [Diff DiffInsert t] color omit =
        colored color ''[32m''
          (prefix_every_line ''+ '' (if omit then DiffKeyValue_ReplaceAllString t else t)) \<and>
      formatDiff [Diff DiffDelete t] color omit =
        colored color ''[31m''
          (prefix_every_line ''- '' (if omit then DiffKeyValue_ReplaceAllString t else t)) \<and>
      formatDiff [Diff DiffEqual t] color False = prefix_every_line ''  '' t) \<and>
   formatDiff [Diff DiffEqual t] color True = [] \<and>
   (kv_shape key w val \<longrightarrow>
      DiffKeyValue_ReplaceAllString (fragment key w val @ CHR '','' # rest) =
        key @ '': <omitted>'' @ DiffKeyValue_ReplaceAllString rest) \<and>
   (kv_shape key w val \<and> (rest = [] \<or> hd rest \<noteq> CHR '','') \<longrightarrow>
      DiffKeyValue_ReplaceAllString (fragment key w val @ rest) =
        key @ '': <omitted>'' @ DiffKeyValue_ReplaceAllString rest) \<and>
   (no_match_in pre s \<longrightarrow>
      DiffKeyValue_ReplaceAllString (pre @ s) = pre @ DiffKeyValue_ReplaceAllString s)"
proof -
  have lines: "prefix_nonempty marker (if omit then DiffKeyValue_ReplaceAllString t else t) =
      prefix_every_line marker (if omit then DiffKeyValue_ReplaceAllString t else t)"
    if "no_empty_lines t" for marker
    using that by (intro prefix_every_line_eq) (simp add: ReplaceAll_no_empty_lines)
  have eq: "prefix_nonempty ''  '' t = prefix_every_line ''  '' t" if "no_empty_lines t"
    using that by (rule prefix_every_line_eq)
  from formatDiff_concat [of ds color omit] formatDiff_single [of t color omit]
    formatDiff_single(3) [of t color False] formatDiff_single(3) [of t color True]
    lines eq ReplaceAll_fragment [of key w val rest] ReplaceAll_no_match [of pre s]
  show ?thesis by simp
qed

theorem formatDiff_spec_witness:
  "no_empty_lines (''{'' @ [LF] @ ''  '' @ fragment ''k'' (CHR '' '') ''v1'' @ '','' @ [LF]) \<and>
   kv_shape ''k'' (CHR '' '') ''v1'' \<and>
   no_match_in (''{'' @ [LF] @ ''  '') (fragment ''k'' (CHR '' '') ''v1'' @ '','' @ [LF]) \<and>
   DiffKeyValue_ReplaceAllString
     (''{'' @ [LF] @ ''  '' @ fragment ''k'' (CHR '' '') ''v1'' @ '','' @ [LF]) =
     ''{'' @ [LF] @ ''  k: <omitted>'' @ [LF] \<and>
   formatDiff
     [Diff DiffEqual (''['' @ [LF]),
      Diff DiffDelete (''{'' @ [LF] @ ''  '' @ fragment ''k'' (CHR '' '') ''v1'' @ '','' @ [LF]),
      Diff DiffInsert (''{'' @ [LF] @ ''  '' @ fragment ''k'' (CHR '' '') ''v1'' @ '','' @ [LF])]
     False True =
     ''- {'' @ [LF] @ ''-   k: <omitted>'' @ [LF] @ ''+ {'' @ [LF] @ ''+   k: <omitted>'' @ [LF] \<and>
   formatDiff
     [Diff DiffEqual (''{'' @ [LF] @ ''  '' @ fragment ''k'' (CHR '' '') ''v1'' @ '','' @ [LF]),
      Diff DiffDelete (''{'' @ [LF] @ ''  '' @ fragment ''k'' (CHR '' '') ''v1'' @ '','' @ [LF])]
     True False =
     ''  {'' @ [LF] @ ''    '' @ fragment ''k'' (CHR '' '') ''v1'' @ '','' @ [LF] @
     ESC # ''[31m'' @ ''- {'' @ [LF] @ ''-   '' @ fragment ''k'' (CHR '' '') ''v1'' @ '','' @ [LF] @
     ESC # ''[0m''"
proof -
  let ?t = "''{'' @ [LF] @ ''  '' @ fragment ''k'' (CHR '' '') ''v1'' @ '','' @ [LF]"
  have ne: "no_empty_lines ?t"
    by (simp add: no_empty_lines_def fragment_def)
  have sh: "kv_shape ''k'' (CHR '' '') ''v1''"
    by (simp add: eval_defs)
  have nm: "no_match_in (''{'' @ [LF] @ ''  '') (fragment ''k'' (CHR '' '') ''v1'' @ '','' @ [LF])"
    by (simp add: eval_defs)
  have r: "DiffKeyValue_ReplaceAllString [LF] = [LF]"
    by (simp add: eval_defs)
  note a = formatDiff_spec [of
      "[Diff DiffEqual (''['' @ [LF]), Diff DiffDelete ?t, Diff DiffInsert ?t]"
      False True ?t "''k''" "CHR '' ''" "''v1''" "[LF]" "''{'' @ [LF] @ ''  ''"
      "fragment ''k'' (CHR '' '') ''v1'' @ '','' @ [LF]"]
  from a sh nm r
  have 1: "DiffKeyValue_ReplaceAllString ?t = ''{'' @ [LF] @ ''  k: <omitted>'' @ [LF]"
    by simp
  have 2: "prefix_every_line ''- '' (''{'' @ [LF] @ ''  k: <omitted>'' @ [LF]) =
      ''- {'' @ [LF] @ ''-   k: <omitted>'' @ [LF]"
    "prefix_every_line ''+ '' (''{'' @ [LF] @ ''  k: <omitted>'' @ [LF]) =
      ''+ {'' @ [LF] @ ''+   k: <omitted>'' @ [LF]"
    by (simp_all add: prefix_every_line_def)
  from a ne 1 2
  have 3: "formatDiff [Diff DiffEqual (''['' @ [LF]), Diff DiffDelete ?t, Diff DiffInsert ?t]
     False True =
     ''- {'' @ [LF] @ ''-   k: <omitted>'' @ [LF] @ ''+ {'' @ [LF] @ ''+   k: <omitted>'' @ [LF]"
    by (simp add: colored_def)
  show ?thesis
    using ne sh nm 1 3 by (simp add: eval_defs)
qed

text \<open>
  C5, as the claim states it, fails: the comma behind a redacted fragment is not part of
  the key-value shape, and it is not left untouched.
\<close>

theorem formatDiff_comma_counterexample:
  "formatDiff [Diff DiffDelete (''  '' @ fragment ''k'' (CHR '' '') ''v'' @ '','' @ [LF])] False True =
     ''-   k: <omitted>'' @ [LF] \<and>
   formatDiff [Diff DiffDelete (''  '' @ fragment ''k'' (CHR '' '') ''v'' @ '','' @ [LF])] False True \<noteq>
     ''-   k: <omitted>,'' @ [LF]"
  by (simp add: eval_defs)

text \<open>
  C10: with redaction, the pattern matches only at a fragment made of a quoted key of
  \<^verbatim>\<open>[-._a-zA-Z0-9]\<close>, a colon, one whitespace and a quoted value of alphanumerics,
  \<^verbatim>\<open>=\<close> and \<^verbatim>\<open>+\<close> (a comma directly behind it is taken along), and a text is changed only
  where such a fragment stands. A key-value line whose value holds any other character
  (quotes escaped as in JSON) is written as it is: the output with redaction is the output
  without it.
\<close>

theorem DiffKeyValue_shape:
  "(DiffKeyValue_match s = Some (key, rest) \<longrightarrow>
      (\<exists>w val. kv_shape key w val \<and>
         (s = fragment key w val @ CHR '','' # rest \<or> s = fragment key w val @ rest))) \<and>
   (DiffKeyValue_ReplaceAllString t \<noteq> t \<longrightarrow>
      (\<exists>pre key w val post. t = pre @ fragment key w val @ post \<and> kv_shape key w val)) \<and>
   (DQ \<notin> set pre \<and> DQ \<notin> set post \<and> quotes_escaped k \<and> quotes_escaped v \<and>
    (\<exists>c\<in>set v. \<not> is_value_char c) \<and> w' \<noteq> DQ \<longrightarrow>
      DiffKeyValue_ReplaceAllString (pre @ fragment k w' v @ post) = pre @ fragment k w' v @ post \<and>
      formatDiff [Diff DiffInsert (pre @ fragment k w' v @ post)] color True =
        formatDiff [Diff DiffInsert (pre @ fragment k w' v @ post)] color False \<and>
      formatDiff [Diff DiffDelete (pre @ fragment k w' v @ post)] color True =
        formatDiff [Diff DiffDelete (pre @ fragment k w' v @ post)] color False)"
proof -
  have 1: "\<exists>w val. kv_shape key w val \<and>
         (s = fragment key w val @ CHR '','' # rest \<or> s = fragment key w val @ rest)"
    if "DiffKeyValue_match s = Some (key, rest)"
    using that by (auto simp: DiffKeyValue_match_iff)
  have 3: "DiffKeyValue_ReplaceAllString (pre @ fragment k w' v @ post) = pre @ fragment k w' v @ post"
    if "DQ \<notin> set pre \<and> DQ \<notin> set post \<and> quotes_escaped k \<and> quotes_escaped v \<and>
        (\<exists>c\<in>set v. \<not> is_value_char c) \<and> w' \<noteq> DQ"
    using that by (intro ReplaceAll_verbatim) simp_all
  from 1 ReplaceAll_changed [of t] 3 show ?thesis
    by (simp add: Let_def)
qed

theorem DiffKeyValue_shape_witness:
  "DiffKeyValue_match (fragment ''user.name'' (CHR '' '') ''YWRtaW4='' @ '','' @ [LF]) =
     Some (''user.name'', [LF]) \<and>
   (\<exists>w val. kv_shape ''user.name'' w val \<and>
      (fragment ''user.name'' (CHR '' '') ''YWRtaW4='' @ '','' @ [LF] =
         fragment ''user.name'' w val @ CHR '','' # [LF] \<or>
       fragment ''user.name'' (CHR '' '') ''YWRtaW4='' @ '','' @ [LF] =
         fragment ''user.name'' w val @ [LF])) \<and>
   DiffKeyValue_ReplaceAllString (fragment ''a'' (CHR '' '') ''b'') \<noteq> fragment ''a'' (CHR '' '') ''b'' \<and>
   (\<exists>pre key w val post.
      fragment ''a'' (CHR '' '') ''b'' = pre @ fragment key w val @ post \<and> kv_shape key w val) \<and>
   quotes_escaped (''/etc x:'' @ [BS, DQ] @ ''q'') \<and>
   (\<exists>c\<in>set (''/etc x:'' @ [BS, DQ] @ ''q''). \<not> is_value_char c) \<and>
   DiffKeyValue_ReplaceAllString
     (''  '' @ fragment ''path'' (CHR '' '') (''/etc x:'' @ [BS, DQ] @ ''q'') @ '','' @ [LF]) =
   ''  '' @ fragment ''path'' (CHR '' '') (''/etc x:'' @ [BS, DQ] @ ''q'') @ '','' @ [LF] \<and>
   formatDiff
     [Diff DiffInsert
        (''  '' @ fragment ''path'' (CHR '' '') (''/etc x:'' @ [BS, DQ] @ ''q'') @ '','' @ [LF])]
     False True =
   ''+   '' @ fragment ''path'' (CHR '' '') (''/etc x:'' @ [BS, DQ] @ ''q'') @ '','' @ [LF]"
proof -
  have m: "DiffKeyValue_match (fragment ''user.name'' (CHR '' '') ''YWRtaW4='' @ '','' @ [LF]) =
     Some (''user.name'', [LF])"
    by (simp add: eval_defs)
  have c: "DiffKeyValue_ReplaceAllString (fragment ''a'' (CHR '' '') ''b'') \<noteq>
      fragment ''a'' (CHR '' '') ''b''"
    by (simp add: eval_defs)
  have h: "DQ \<notin> set ''  '' \<and> DQ \<notin> set ('','' @ [LF]) \<and> quotes_escaped ''path'' \<and>
      quotes_escaped (''/etc x:'' @ [BS, DQ] @ ''q'') \<and>
      (\<exists>c\<in>set (''/etc x:'' @ [BS, DQ] @ ''q''). \<not> is_value_char c) \<and> CHR '' '' \<noteq> DQ"
    by (simp add: quotes_escaped_def eval_defs)
  from DiffKeyValue_shape [of
      "fragment ''user.name'' (CHR '' '') ''YWRtaW4='' @ '','' @ [LF]" "''user.name''" "[LF]"
      "fragment ''a'' (CHR '' '') ''b''" "''  ''" "'','' @ [LF]" "''path''"
      "''/etc x:'' @ [BS, DQ] @ ''q''" "CHR '' ''" False] m c h
  show ?thesis
    by (simp add: eval_defs)
qed

section \<open>Properties of the dispatcher\<close>

lemma text_of_Inr: "text_of (Inr (text_of r)) = text_of r"
  by (simp add: text_of_def)

lemma Run_body_marshal:
  "Run_body c (env\<lparr>MarshalIndent := \<lambda>v. Inr (text_of (MarshalIndent env v))\<rparr>) sr obj out df =
   Run_body c env sr obj out df"
  unfolding Run_body_def
  by (simp add: text_of_Inr Let_def
      cong: if_cong sum.case_cong option.case_cong prod.case_cong)

lemma Run_loop_marshal:
  "Run_loop c (env\<lparr>MarshalIndent := \<lambda>v. Inr (text_of (MarshalIndent env v))\<rparr>) sr objs out df =
   Run_loop c env sr objs out df"
  by (induction objs arbitrary: out df) (simp_all add: Run_body_marshal split: step.splits)

lemma lineDiff_same: "lineDiff script t t = [Diff DiffEqual t]"
  by (simp add: lineDiff_def)

lemmas demo_defs = demo_collaborators_def demo_server_def demo_marshal_def name_of_def
  Run_def Run_body_def Let_def text_of_def lineDiff_def DiffLineStart_ReplaceAllString_def

lemma Run_body_not_found:
  assumes "ClientForResource env obj (DefaultNamespace c) = Inr client"
    and "GetName env obj \<noteq> ''''"
    and "Get env client (GetName env obj) = (got, Some err)" and "IsNotFound err"
  shows "Run_body c env sr obj out diffFound =
    Next (out @ ''---'' @ [LF] @
          ''- live '' @ ResourceNameFor env obj @ '' '' @ FqName env obj @ [LF] @
          ''+ config '' @ ResourceNameFor env obj @ '' '' @ FqName env obj @ [LF] @
          ResourceNameFor env obj @ '' '' @ FqName env obj @ '' doesn't exist on server'' @ [LF])
         True"
  unfolding Run_body_def using assms by (simp add: Let_def)

lemma Run_body_update_returns:
  assumes "DiffStrategy c = ''update''"
    and "ClientForResource env obj (DefaultNamespace c) = Inr client"
    and "GetName env obj \<noteq> ''''"
    and "Get env client (GetName env obj) = (Some liveObj, None)"
  shows "\<exists>out' err. Run_body c env sr obj out diffFound = Return out' err \<and>
           err \<noteq> Some ErrDiffFound"
  unfolding Run_body_def using assms
  by (simp add: Let_def split: sum.splits)

lemma Run_loop_update_ignores_rest:
  assumes "DiffStrategy c = ''update''"
    and "ClientForResource env obj (DefaultNamespace c) = Inr client"
    and "GetName env obj \<noteq> ''''"
    and "Get env client (GetName env obj) = (Some liveObj, None)"
  shows "Run_loop c env sr (obj # apiObjects) out diffFound = Run_loop c env sr [obj] out diffFound \<and>
         snd (Run_loop c env sr (obj # apiObjects) out diffFound) \<noteq> Inr (Some ErrDiffFound)"
proof -
  from Run_body_update_returns [OF assms] obtain out' err
    where "Run_body c env sr obj out diffFound = Return out' err" "err \<noteq> Some ErrDiffFound"
    by blast
  then show ?thesis by simp
qed

lemma Run_body_keeps_difference:
  assumes "DiffStrategy c \<noteq> ''update''" and "Run_body c env sr obj out True = Next out' diffFound"
  shows "diffFound"
  using assms unfolding Run_body_def
  by (auto simp: Let_def split: sum.splits if_splits prod.splits option.splits)

lemma Run_body_no_ErrDiffFound: "Run_body c env sr obj out diffFound \<noteq> Return out' (Some ErrDiffFound)"
  unfolding Run_body_def
  by (auto simp: Let_def split: sum.splits if_splits prod.splits option.splits)

lemma Run_loop_keeps_difference:
  assumes "DiffStrategy c \<noteq> ''update''"
  shows "snd (Run_loop c env sr apiObjects out True) \<noteq> Inr None"
proof (induction apiObjects arbitrary: out)
  case Nil
  then show ?case by simp
next
  case (Cons obj apiObjects)
  show ?case
  proof (cases "Run_body c env sr obj out True")
    case (Next out' diffFound)
    with Run_body_keeps_difference [OF assms Next] Cons show ?thesis by simp
  next
    case (Return out' err)
    have "err \<noteq> None"
      using Return assms unfolding Run_body_def
      by (auto simp: Let_def split: sum.splits if_splits prod.splits option.splits)
    with Return show ?thesis by simp
  next
    case (Panicked out' p)
    then show ?thesis by simp
  qed
qed

text \<open>
  C9, as the code has it: a failure of the serializer never reaches the result of
  \<^verbatim>\<open>Run\<close>. The run is the run of a serializer that returns the empty text where the real
  one fails.
\<close>

theorem Run_marshal_errors_dropped:
  "Run c env apiObjects out =
   Run c (env\<lparr>MarshalIndent := \<lambda>v. Inr (text_of (MarshalIndent env v))\<rparr>) apiObjects out"
  by (simp add: Run_def Run_loop_marshal split: sum.splits)

text \<open>
  C9, as the claim states it, fails: the serializer fails on the desired object \<open>d\<close>, which
  holds a channel, and the run goes on, diffs the live text against the empty text and
  ends with the differences-found signal.
\<close>

theorem Run_marshal_error_counterexample:
  "MarshalIndent (demo_collaborators demo_server)
     [(''name'', JString ''d''), (''x'', JOther ''chan int'' ''0xc0'')] =
     Inl (ExtError ''json: unsupported type'' False) \<and>
   Run \<lparr>DefaultNamespace = ''default'', OmitSecrets = False, DiffStrategy = ''all''\<rparr>
     (demo_collaborators demo_server)
     [[(''name'', JString ''d''), (''x'', JOther ''chan int'' ''0xc0'')]] [] =
   (''---'' @ [LF] @ ''- live configmaps d'' @ [LF] @ ''+ config configmaps d'' @ [LF] @
    ''- name: d'' @ [LF] @ ''- x: 1'' @ [LF] @ [LF], Inr (Some ErrDiffFound))"
  by (simp add: demo_defs)

text \<open>
  C6: the differ gives one Equal segment on two identical texts, and on it the dispatcher
  writes the header and the line \<^verbatim>\<open>unchanged\<close>, calls no formatter and leaves the flag as it
  is: under the strict and the subset strategy the loop goes on with the same flag, under
  the update strategy \<^verbatim>\<open>Run\<close> returns \<^verbatim>\<open>nil\<close>.
\<close>

theorem Run_unchanged:
  assumes "ClientForResource env obj (DefaultNamespace c) = Inr client"
    and "GetName env obj \<noteq> ''''"
    and "Get env client (GetName env obj) = (Some liveObj, None)"
  shows "lineDiff (EditScript env) t t = [Diff DiffEqual t] \<and>
    (DiffStrategy c \<noteq> ''update'' \<and>
     (if DiffStrategy c = ''subset'' then removeMapFields obj liveObj else Inr liveObj) =
       Inr liveObjObject \<and>
     MarshalIndent env liveObjObject = Inr t \<and> MarshalIndent env obj = Inr t \<longrightarrow>
       Run_body c env sr obj out diffFound =
         Next (out @ ''---'' @ [LF] @
               ''- live '' @ ResourceNameFor env obj @ '' '' @ FqName env obj @ [LF] @
               ''+ config '' @ ResourceNameFor env obj @ '' '' @ FqName env obj @ [LF] @
               ResourceNameFor env obj @ '' '' @ FqName env obj @ '' unchanged'' @ [LF])
              diffFound \<and>
       Run_loop c env sr (obj # apiObjects) out diffFound =
         Run_loop c env sr apiObjects
           (out @ ''---'' @ [LF] @
            ''- live '' @ ResourceNameFor env obj @ '' '' @ FqName env obj @ [LF] @
            ''+ config '' @ ResourceNameFor env obj @ '' '' @ FqName env obj @ [LF] @
            ResourceNameFor env obj @ '' '' @ FqName env obj @ '' unchanged'' @ [LF])
           diffFound) \<and>
    (DiffStrategy c = ''update'' \<and>
     patch env liveObj obj
       (if \<not> isValidKindSchema env (LookupResource env sr (GroupVersionKind env obj)) then None
        else Some (LookupResource env sr (GroupVersionKind env obj))) = Inr mergedObj \<and>
     liveObj' = (if CreationTimestampIsZero env mergedObj
                 then SetCreationTimestampZero env liveObj else liveObj) \<and>
     \<not> DeepEqual env liveObj' mergedObj \<and>
     MarshalIndent env (DeleteMetaDataAnnotation env liveObj') = Inr t \<and>
     MarshalIndent env (DeleteMetaDataAnnotation env mergedObj) = Inr t \<longrightarrow>
       Run_body c env sr obj out diffFound =
         Return (out @ ''---'' @ [LF] @
                 ''- live '' @ ResourceNameFor env obj @ '' '' @ FqName env obj @ [LF] @
                 ''+ config '' @ ResourceNameFor env obj @ '' '' @ FqName env obj @ [LF] @
                 ResourceNameFor env obj @ '' '' @ FqName env obj @ '' unchanged'' @ [LF])
                None)"
proof -
  have a: "Run_body c env sr obj out diffFound =
         Next (out @ ''---'' @ [LF] @
               ''- live '' @ ResourceNameFor env obj @ '' '' @ FqName env obj @ [LF] @
               ''+ config '' @ ResourceNameFor env obj @ '' '' @ FqName env obj @ [LF] @
               ResourceNameFor env obj @ '' '' @ FqName env obj @ '' unchanged'' @ [LF])
              diffFound"
    if "DiffStrategy c \<noteq> ''update''"
      and "(if DiffStrategy c = ''subset'' then removeMapFields obj liveObj else Inr liveObj) =
        Inr liveObjObject"
      and "MarshalIndent env liveObjObject = Inr t" and "MarshalIndent env obj = Inr t"
    unfolding Run_body_def using assms that
    by (simp add: Let_def text_of_def lineDiff_same)
  have b: "Run_body c env sr obj out diffFound =
         Return (out @ ''---'' @ [LF] @
                 ''- live '' @ ResourceNameFor env obj @ '' '' @ FqName env obj @ [LF] @
                 ''+ config '' @ ResourceNameFor env obj @ '' '' @ FqName env obj @ [LF] @
                 ResourceNameFor env obj @ '' '' @ FqName env obj @ '' unchanged'' @ [LF])
                None"
    if "DiffStrategy c = ''update''"
      and "patch env liveObj obj
       (if \<not> isValidKindSchema env (LookupResource env sr (GroupVersionKind env obj)) then None
        else Some (LookupResource env sr (GroupVersionKind env obj))) = Inr mergedObj"
      and "liveObj' = (if CreationTimestampIsZero env mergedObj
                 then SetCreationTimestampZero env liveObj else liveObj)"
      and "\<not> DeepEqual env liveObj' mergedObj"
      and "MarshalIndent env (DeleteMetaDataAnnotation env liveObj') = Inr t"
      and "MarshalIndent env (DeleteMetaDataAnnotation env mergedObj) = Inr t"
    unfolding Run_body_def using assms that
    by (simp add: Let_def text_of_def lineDiff_same)
  have a2: "Run_loop c env sr (obj # apiObjects) out diffFound =
         Run_loop c env sr apiObjects
           (out @ ''---'' @ [LF] @
            ''- live '' @ ResourceNameFor env obj @ '' '' @ FqName env obj @ [LF] @
            ''+ config '' @ ResourceNameFor env obj @ '' '' @ FqName env obj @ [LF] @
            ResourceNameFor env obj @ '' '' @ FqName env obj @ '' unchanged'' @ [LF])
           diffFound"
    if "DiffStrategy c \<noteq> ''update''"
      and "(if DiffStrategy c = ''subset'' then removeMapFields obj liveObj else Inr liveObj) =
        Inr liveObjObject"
      and "MarshalIndent env liveObjObject = Inr t" and "MarshalIndent env obj = Inr t"
    using a [OF that] by simp
  from a a2 b lineDiff_same [of "EditScript env" t] show ?thesis by blast
qed

theorem Run_unchanged_witness:
  "ClientForResource (demo_collaborators demo_server)
     [(''name'', JString ''b''), (''x'', JString ''1'')] ''default'' = Inr () \<and>
   GetName (demo_collaborators demo_server) [(''name'', JString ''b''), (''x'', JString ''1'')] \<noteq> '''' \<and>
   Get (demo_collaborators demo_server) () ''b'' =
     (Some [(''name'', JString ''b''), (''x'', JString ''1'')], None) \<and>
   MarshalIndent (demo_collaborators demo_server) [(''name'', JString ''b''), (''x'', JString ''1'')] =
     Inr (''name: b'' @ [LF] @ ''x: 1'' @ [LF]) \<and>
   Run_body \<lparr>DefaultNamespace = ''default'', OmitSecrets = False, DiffStrategy = ''subset''\<rparr>
     (demo_collaborators demo_server) () [(''name'', JString ''b''), (''x'', JString ''1'')] [] False =
   Next (''---'' @ [LF] @ ''- live configmaps b'' @ [LF] @ ''+ config configmaps b'' @ [LF] @
         ''configmaps b unchanged'' @ [LF]) False"
proof -
  let ?env = "demo_collaborators demo_server"
  let ?obj = "[(''name'', JString ''b''), (''x'', JString ''1'')]"
  let ?c = "\<lparr>DefaultNamespace = ''default'', OmitSecrets = False, DiffStrategy = ''subset''\<rparr>"
  have 1: "ClientForResource ?env ?obj (DefaultNamespace ?c) = Inr ()"
    by (simp add: demo_defs)
  have 2: "GetName ?env ?obj \<noteq> ''''" by (simp add: demo_defs)
  have 3: "Get ?env () (GetName ?env ?obj) = (Some ?obj, None)" by (simp add: demo_defs)
  have 4: "MarshalIndent ?env ?obj = Inr (''name: b'' @ [LF] @ ''x: 1'' @ [LF])"
    by (simp add: demo_defs)
  have 5: "removeMapFields ?obj ?obj = Inr ?obj" by simp
  from Run_unchanged [OF 1 2 3, of "''name: b'' @ [LF] @ ''x: 1'' @ [LF]" ?obj "()" "[]" False]
    1 2 3 4 5
  show ?thesis by (simp add: demo_defs)
qed

text \<open>
  C3 fails on the code: with the update strategy and two objects that both exist on the
  server, \<^verbatim>\<open>Run\<close> writes the block of the first object and returns; the second object
  is never looked at (\<open>Run_loop_update_ignores_rest\<close> for any collaborators).
\<close>

theorem Run_update_returns_after_first:
  "Run \<lparr>DefaultNamespace = ''default'', OmitSecrets = False, DiffStrategy = ''update''\<rparr>
     (demo_collaborators demo_server)
     [[(''name'', JString ''b''), (''x'', JString ''2'')],
      [(''name'', JString ''c''), (''x'', JString ''2'')]] [] =
   (''---'' @ [LF] @ ''- live configmaps b'' @ [LF] @ ''+ config configmaps b'' @ [LF] @
    ''- name: b'' @ [LF] @ ''- x: 1'' @ [LF] @ ''+ name: b'' @ [LF] @ ''+ x: 2'' @ [LF] @ [LF],
    Inr None)"
  by (simp add: demo_defs)

text \<open>
  C4 fails on the code: with the update strategy, an object that is not on the server
  is reported and the loop goes on, the next object differs from the server's, and
  \<^verbatim>\<open>Run\<close> still returns \<^verbatim>\<open>nil\<close> instead of the differences-found signal. Under the other
  strategies a recorded difference is never lost (\<open>Run_loop_keeps_difference\<close>).
\<close>

theorem Run_update_loses_difference:
  "Run \<lparr>DefaultNamespace = ''default'', OmitSecrets = False, DiffStrategy = ''update''\<rparr>
     (demo_collaborators demo_server)
     [[(''name'', JString ''a''), (''x'', JString ''2'')],
      [(''name'', JString ''b''), (''x'', JString ''2'')]] [] =
   (''---'' @ [LF] @ ''- live configmaps a'' @ [LF] @ ''+ config configmaps a'' @ [LF] @
    ''configmaps a doesn't exist on server'' @ [LF] @
    ''---'' @ [LF] @ ''- live configmaps b'' @ [LF] @ ''+ config configmaps b'' @ [LF] @
    ''- name: b'' @ [LF] @ ''- x: 1'' @ [LF] @ ''+ name: b'' @ [LF] @ ''+ x: 2'' @ [LF] @ [LF],
    Inr None)"
  by (simp add: demo_defs)

end
